theory Spec2Isabelle
  imports Complex_Main "HOL-Library.Word" "HOL-Library.Log_Nat"
begin

section \<open>JavaScript Numbers\<close>

text \<open>
  The server computes with JavaScript Numbers (IEEE-754 doubles). Every finite Number is a
  rational, so a Number is modelled as a \<^typ>\<open>rat\<close>, and \<open>>\<close>, \<open>===\<close> on Numbers are the
  order and equality of the rationals. The operators \<open>+ - * /\<close> return the exact result
  rounded to a double; \<open>x ** 2\<close> returns an implementation-approximated value. The rounding
  is a parameter of the model: \<open>rnd\<close> is applied to the exact result of \<open>+ - * /\<close>, and
  \<open>sqr\<close> is the value of \<open>x ** 2\<close>. The instance \<open>exact\<close> does not round at all;
  the instance \<open>double_ops\<close> rounds to the nearest double.

  Counts and sums of samples (\<open>hist[t]\<close>, \<open>wB\<close>, \<open>wF\<close>, \<open>sumB\<close>, \<open>sum\<close>, \<open>roiSum\<close>,
  \<open>roiCount\<close>) are integers far below \<open>2 ^ 53\<close> for any buffer; on them the Number
  operations are exact, and they are modelled as \<^typ>\<open>int\<close>.
\<close>

record number_ops =
  rnd :: "rat \<Rightarrow> rat"
  sqr :: "rat \<Rightarrow> rat"

definition exact :: number_ops where
  "exact = \<lparr>rnd = (\<lambda>x. x), sqr = (\<lambda>x. x * x)\<rparr>"

definition js_div :: "number_ops \<Rightarrow> rat \<Rightarrow> rat \<Rightarrow> rat" where
  "js_div ops a b = rnd ops (a / b)"

definition js_sub :: "number_ops \<Rightarrow> rat \<Rightarrow> rat \<Rightarrow> rat" where
  "js_sub ops a b = rnd ops (a - b)"

definition js_mul :: "number_ops \<Rightarrow> rat \<Rightarrow> rat \<Rightarrow> rat" where
  "js_mul ops a b = rnd ops (a * b)"

definition js_pow2 :: "number_ops \<Rightarrow> rat \<Rightarrow> rat" where
  "js_pow2 ops x = sqr ops x"

text \<open>
  What the proofs need of the rounding: it is monotone, it leaves the integers of a byte's
  range (and their negatives) unchanged, and a square is never negative and is at least 1
  when the base is at least 1 in absolute value. Exact arithmetic and round-to-nearest
  doubles have these properties (\<open>sound_ops_exact\<close>, \<open>sound_ops_double\<close>).
\<close>

definition sound_ops :: "number_ops \<Rightarrow> bool" where
  "sound_ops ops \<longleftrightarrow>
     (\<forall>x y. x \<le> y \<longrightarrow> rnd ops x \<le> rnd ops y) \<and>
     (\<forall>k::int. \<bar>k\<bar> \<le> 256 \<longrightarrow> rnd ops (of_int k) = of_int k) \<and>
     (\<forall>x. 0 \<le> sqr ops x) \<and>
     (\<forall>x. 1 \<le> \<bar>x\<bar> \<longrightarrow> 1 \<le> sqr ops x)"

text \<open>
  The optimality of the scan needs less: a rounded non-negative number is not negative,
  and a square is not negative.
\<close>

definition nonneg_ops :: "number_ops \<Rightarrow> bool" where
  "nonneg_ops ops \<longleftrightarrow> (\<forall>x. 0 \<le> x \<longrightarrow> 0 \<le> rnd ops x) \<and> (\<forall>x. 0 \<le> sqr ops x)"

subsection \<open>Doubles: round to nearest, ties to even\<close>

text \<open>
  A double has a significand of 53 bits. \<open>round_double x\<close> is the double nearest to
  \<open>x\<close>, the one with the even significand when two are equally near. The range of the
  exponent is not modelled (no overflow and no subnormal numbers), which is exact for every
  number between \<open>2 ^ -1022\<close> and \<open>2 ^ 1024\<close> in absolute value. In \<open>double_ops\<close> the value
  of \<open>x ** 2\<close> is the correctly rounded square, as \<open>x * x\<close> gives it.
\<close>

definition floor_log2 :: "rat \<Rightarrow> int" where
  "floor_log2 x =
     (let (a, b) = quotient_of x; k = bitlen a - bitlen b
      in if 2 powi k \<le> x then k else k - 1)"

definition round_half_even :: "rat \<Rightarrow> int" where
  "round_half_even m =
     (let n = \<lfloor>m\<rfloor>; f = m - of_int n
      in if f < 1 / 2 then n else if 1 / 2 < f then n + 1 else if even n then n else n + 1)"

definition round_double :: "rat \<Rightarrow> rat" where
  "round_double x =
     (if x = 0 then 0
      else
        (let e = floor_log2 \<bar>x\<bar> - 52;
             r = of_int (round_half_even (\<bar>x\<bar> / 2 powi e)) * 2 powi e
         in if x < 0 then - r else r))"

definition double_ops :: number_ops where
  "double_ops = \<lparr>rnd = round_double, sqr = (\<lambda>x. round_double (x * x))\<rparr>"

section \<open>Threshold selector: \<open>otsuLike\<close> (server.js) and \<open>otsuThreshold\<close>\<close>

type_synonym byte = "8 word"

text \<open>
  \<open>const hist = new Array(256).fill(0);
  for (let i = 0; i < grayData.length; i++) hist[grayData[i]]++;\<close>
  A sample of a Buffer is a byte, so the index is always below 256.
\<close>

definition hist_of :: "byte list \<Rightarrow> int list" where
  "hist_of grayData = fold (\<lambda>v hist. hist[unat v := hist ! unat v + 1]) grayData (replicate 256 0)"

text \<open>\<open>let sum = 0; for (let t = 0; t < 256; t++) sum += t * hist[t];\<close>\<close>

definition sum_of_hist :: "int list \<Rightarrow> int" where
  "sum_of_hist hist = fold (\<lambda>t acc. acc + int t * hist ! t) [0..<256] 0"

text \<open>
  \<open>const mB = sumB / wB; const mF = (sum - sumB) / wF;
  const betweenVar = wB * wF * (mB - mF) ** 2;\<close>
  (\<open>**\<close> binds tighter than \<open>*\<close>, and \<open>*\<close> associates to the left.)
\<close>

definition betweenVar :: "number_ops \<Rightarrow> int \<Rightarrow> int \<Rightarrow> int \<Rightarrow> int \<Rightarrow> rat" where
  "betweenVar ops wB wF sumB sum_all =
     (let mB = js_div ops (of_int sumB) (of_int wB);
          mF = js_div ops (of_int (sum_all - sumB)) (of_int wF)
      in js_mul ops (js_mul ops (of_int wB) (of_int wF)) (js_pow2 ops (js_sub ops mB mF)))"

text \<open>
  The scan \<open>for (let t = 0; t < 256; t++) { ... }\<close> with its \<open>continue\<close> and its
  \<open>break\<close>; the arguments after \<open>t\<close> are the loop's variables \<open>sumB\<close>, \<open>wB\<close>,
  \<open>varMax\<close> and \<open>threshold\<close> on entry to iteration \<open>t\<close>; \<open>sum_all\<close> and
  \<open>total_px\<close> are the source's \<open>sum\<close> and \<open>total\<close>.
\<close>

function otsu_scan ::
  "number_ops \<Rightarrow> int list \<Rightarrow> int \<Rightarrow> int \<Rightarrow> nat \<Rightarrow> int \<Rightarrow> int \<Rightarrow> rat \<Rightarrow> nat \<Rightarrow> nat" where
  "otsu_scan ops hist total_px sum_all t sumB wB varMax threshold =
     (if t < 256 then
        (let wB' = wB + hist ! t in
         if wB' = 0 then otsu_scan ops hist total_px sum_all (t + 1) sumB wB' varMax threshold
         else
           (let wF = total_px - wB' in
            if wF = 0 then threshold
            else
              (let sumB' = sumB + int t * hist ! t;
                   bv = betweenVar ops wB' wF sumB' sum_all
               in if bv > varMax
                  then otsu_scan ops hist total_px sum_all (t + 1) sumB' wB' bv t
                  else otsu_scan ops hist total_px sum_all (t + 1) sumB' wB' varMax threshold)))
      else threshold)"
  by pat_completeness auto
termination
  by (relation "measure (\<lambda>(ops, hist, total_px, sum_all, t, rest). 256 - t)") auto

definition otsuLike :: "number_ops \<Rightarrow> byte list \<Rightarrow> nat" where
  "otsuLike ops grayData =
     (let hist = hist_of grayData;
          sum_all = sum_of_hist hist;
          total_px = int (length grayData)
      in otsu_scan ops hist total_px sum_all 0 0 0 0 0)"

text \<open>
  \<open>otsuThreshold\<close> counts in a \<open>Uint32Array\<close> (an increment wraps at \<open>2 ^ 32\<close>) and adds
  the samples up in the same loop; its scan is the one of \<open>otsuLike\<close>.
\<close>

definition hist_sum_of :: "byte list \<Rightarrow> int list \<times> int" where
  "hist_sum_of data =
     fold (\<lambda>val (hist, acc). (hist[unat val := (hist ! unat val + 1) mod 2 ^ 32], acc + uint val))
       data (replicate 256 0, 0)"

definition otsuThreshold :: "number_ops \<Rightarrow> byte list \<Rightarrow> nat" where
  "otsuThreshold ops data =
     (let total_px = int (length data);
          (hist, sum_all) = hist_sum_of data
      in otsu_scan ops hist total_px sum_all 0 0 0 0 0)"

subsection \<open>The between-class variance of a cut point, in the specification's words\<close>

text \<open>
  For a cut point \<open>t\<close> the background class is the samples \<open>\<le> t\<close> and the foreground
  class the samples \<open>> t\<close>. With the weights \<open>wB\<close>, \<open>wF\<close> and the means \<open>mB\<close>, \<open>mF\<close>
  of the two classes the between-class variance is \<open>wB * wF * (mB - mF)\<^sup>2\<close>, a rational
  number. A cut point with an empty class has the variance 0 (the product of the weights
  is 0), as the specification has it for the uniform image.
\<close>

definition exact_variance :: "byte list \<Rightarrow> nat \<Rightarrow> rat" where
  "exact_variance grayData t =
     (let background = filter (\<lambda>v. unat v \<le> t) grayData;
          foreground = filter (\<lambda>v. t < unat v) grayData;
          wB = of_nat (length background);
          wF = of_nat (length foreground);
          mB = of_int (sum_list (map uint background)) / wB;
          mF = of_int (sum_list (map uint foreground)) / wF
      in wB * wF * (mB - mF) ^ 2)"

text \<open>
  The same quantity computed in Numbers, every operation rounded, from the running sums the
  specification names: \<open>wB\<close> and \<open>sumB\<close> are the number and the sum of the samples
  \<open>\<le> t\<close>, \<open>wF = total - wB\<close>, the foreground sum is \<open>totalSum - sumB\<close>, the means are
  \<open>mB = sumB / wB\<close> and \<open>mF = sumF / wF\<close>. A cut point with an empty class is skipped by
  the specification; its variance counts as 0.
\<close>

definition computed_variance :: "number_ops \<Rightarrow> byte list \<Rightarrow> nat \<Rightarrow> rat" where
  "computed_variance ops grayData t =
     (let background = filter (\<lambda>v. unat v \<le> t) grayData;
          total_px = int (length grayData);
          totalSum = sum_list (map uint grayData);
          wB = int (length background);
          sumB = sum_list (map uint background);
          wF = total_px - wB;
          sumF = totalSum - sumB;
          mB = rnd ops (of_int sumB / of_int wB);
          mF = rnd ops (of_int sumF / of_int wF)
      in if wB = 0 \<or> wF = 0 then 0
         else rnd ops (rnd ops (of_int wB * of_int wF) * sqr ops (rnd ops (mB - mF))))"

text \<open>
  For the proofs: the code's \<open>betweenVar\<close> at the weights and sums of the cut point \<open>t\<close>.
\<close>

definition class_wB :: "byte list \<Rightarrow> nat \<Rightarrow> int" where
  "class_wB grayData t = int (length (filter (\<lambda>v. unat v \<le> t) grayData))"

definition class_sumB :: "byte list \<Rightarrow> nat \<Rightarrow> int" where
  "class_sumB grayData t = sum_list (map uint (filter (\<lambda>v. unat v \<le> t) grayData))"

definition between_class_variance :: "number_ops \<Rightarrow> byte list \<Rightarrow> nat \<Rightarrow> rat" where
  "between_class_variance ops grayData t =
     (let total_px = int (length grayData);
          totalSum = sum_list (map uint grayData);
          wB = class_wB grayData t;
          wF = total_px - wB
      in if wB = 0 \<or> wF = 0 then 0
         else betweenVar ops wB wF (class_sumB grayData t) totalSum)"

subsection \<open>Quantities of the scan, for its invariant\<close>

text \<open>
  \<open>prefix_w hist t\<close> and \<open>prefix_s hist t\<close> are the values of \<open>wB\<close> and \<open>sumB\<close> after
  the iterations \<open>0 .. t - 1\<close>; \<open>cut_var\<close> is the \<open>betweenVar\<close> that iteration \<open>k\<close>
  computes, and \<open>nondeg\<close> says that iteration \<open>k\<close> neither continues nor breaks.
\<close>

definition prefix_w :: "int list \<Rightarrow> nat \<Rightarrow> int" where
  "prefix_w hist t = (\<Sum>k<t. hist ! k)"

definition prefix_s :: "int list \<Rightarrow> nat \<Rightarrow> int" where
  "prefix_s hist t = (\<Sum>k<t. int k * hist ! k)"

definition nondeg :: "int list \<Rightarrow> int \<Rightarrow> nat \<Rightarrow> bool" where
  "nondeg hist total_px k \<longleftrightarrow> prefix_w hist (k + 1) \<noteq> 0 \<and> prefix_w hist (k + 1) \<noteq> total_px"

definition cut_var :: "number_ops \<Rightarrow> int list \<Rightarrow> int \<Rightarrow> int \<Rightarrow> nat \<Rightarrow> rat" where
  "cut_var ops hist total_px sum_all k =
     betweenVar ops (prefix_w hist (k + 1)) (total_px - prefix_w hist (k + 1))
       (prefix_s hist (k + 1)) sum_all"

definition scan_inv ::
  "number_ops \<Rightarrow> int list \<Rightarrow> int \<Rightarrow> int \<Rightarrow> nat \<Rightarrow> rat \<Rightarrow> nat \<Rightarrow> bool" where
  "scan_inv ops hist total_px sum_all t varMax threshold \<longleftrightarrow>
     0 \<le> varMax \<and>
     (\<forall>k<t. nondeg hist total_px k \<longrightarrow> cut_var ops hist total_px sum_all k \<le> varMax) \<and>
     (if varMax = 0 then threshold = 0
      else threshold < t \<and> nondeg hist total_px threshold \<and>
           cut_var ops hist total_px sum_all threshold = varMax \<and>
           (\<forall>k<threshold. nondeg hist total_px k \<longrightarrow>
              cut_var ops hist total_px sum_all k < varMax))"

section \<open>Polarity detector (\<open>/solve-captcha\<close>, the ROI mean)\<close>

text \<open>
  \<open>const { data, info } = await sharpInstance.raw().toBuffer(...);
  const { width, height } = info;\<close>
\<close>

record raster =
  data :: "byte list"
  width :: nat
  height :: nat

text \<open>
  \<open>Math.floor(width * 0.25)\<close> and \<open>Math.floor(width * 0.75)\<close>: 0.25 and 0.75 are
  doubles, and the products are exact for every width a raster can have, so the bounds
  are the integer quotients.
\<close>

definition roiStartX :: "raster \<Rightarrow> nat" where
  "roiStartX r = width r div 4"

definition roiEndX :: "raster \<Rightarrow> nat" where
  "roiEndX r = (width r * 3) div 4"

definition roiStartY :: "raster \<Rightarrow> nat" where
  "roiStartY r = height r div 4"

definition roiEndY :: "raster \<Rightarrow> nat" where
  "roiEndY r = (height r * 3) div 4"

text \<open>
  A read beyond the end of a Buffer gives \<open>undefined\<close>, and \<open>roiSum += undefined\<close>
  makes \<open>roiSum\<close> NaN for good: \<open>None\<close> is NaN.
\<close>

definition buffer_get :: "byte list \<Rightarrow> nat \<Rightarrow> int option" where
  "buffer_get buf i = (if i < length buf then Some (uint (buf ! i)) else None)"

definition roi_add :: "int option \<Rightarrow> int option \<Rightarrow> int option" where
  "roi_add roiSum v = (case (roiSum, v) of (Some s, Some x) \<Rightarrow> Some (s + x) | _ \<Rightarrow> None)"

text \<open>
  \<open>for (let y = roiStartY; y < roiEndY; y++)
    for (let x = roiStartX; x < roiEndX; x++) { roiSum += data[y * width + x]; roiCount++; }\<close>
\<close>

definition roi_row :: "raster \<Rightarrow> nat \<Rightarrow> int option \<times> int \<Rightarrow> int option \<times> int" where
  "roi_row r y acc =
     fold (\<lambda>x (roiSum, roiCount).
             (roi_add roiSum (buffer_get (data r) (y * width r + x)), roiCount + 1))
       [roiStartX r..<roiEndX r] acc"

definition roi_scan :: "raster \<Rightarrow> int option \<times> int" where
  "roi_scan r = fold (roi_row r) [roiStartY r..<roiEndY r] (Some 0, 0)"

text \<open>
  \<open>const avgROIGray = roiCount > 0 ? roiSum / roiCount : 128;
  const threshold = 128; const numbersAreLighter = avgROIGray > threshold;\<close>
  A comparison with NaN is false.
\<close>

definition avgROIGray :: "number_ops \<Rightarrow> raster \<Rightarrow> rat option" where
  "avgROIGray ops r =
     (let (roiSum, roiCount) = roi_scan r
      in if roiCount > 0
         then (case roiSum of Some s \<Rightarrow> Some (js_div ops (of_int s) (of_int roiCount))
               | None \<Rightarrow> None)
         else Some 128)"

definition numbersAreLighter :: "number_ops \<Rightarrow> raster \<Rightarrow> bool" where
  "numbersAreLighter ops r = (case avgROIGray ops r of Some a \<Rightarrow> a > 128 | None \<Rightarrow> False)"

section \<open>Binarizer\<close>

text \<open>
  Modelled from the spec: the image library's \<open>negate\<close> is not part of the sources; the
  specification (4.4) has it replace each sample \<open>v\<close> by \<open>255 - v\<close>.
\<close>

definition sharp_negate :: "byte list \<Rightarrow> byte list" where
  "sharp_negate buf = map (\<lambda>v. 255 - v) buf"

text \<open>
  Modelled from the spec: the image library's \<open>threshold\<close> is not part of the sources;
  the specification (4.4) has the output sample 255 if the input sample is greater than the
  threshold, else 0.
\<close>

definition sharp_threshold :: "nat \<Rightarrow> byte list \<Rightarrow> byte list" where
  "sharp_threshold t buf = map (\<lambda>v. if unat v > t then 255 else 0) buf"

text \<open>
  The raster handed to the PNG encoder in server.js:
  \<open>if (numbersAreLighter) sharpInstance.negate().threshold(otsuLike(data))
  else sharpInstance.threshold(otsuLike(data))\<close>.
  The threshold is computed from \<open>data\<close>, the buffer before \<open>negate\<close>, in both branches.
\<close>

definition finalImage :: "number_ops \<Rightarrow> raster \<Rightarrow> byte list" where
  "finalImage ops r =
     (if numbersAreLighter ops r
      then sharp_threshold (otsuLike ops (data r)) (sharp_negate (data r))
      else sharp_threshold (otsuLike ops (data r)) (data r))"

text \<open>
  The variant with \<open>otsuThreshold\<close>:
  \<open>if (numbersAreLighter) sharpImage = sharpImage.negate();
  const threshold = otsuThreshold(rawData); sharpImage.threshold(threshold)\<close>.
\<close>

definition finalImage_alt :: "number_ops \<Rightarrow> raster \<Rightarrow> byte list" where
  "finalImage_alt ops r =
     (let sharpImage = (if numbersAreLighter ops r then sharp_negate (data r) else data r);
          threshold = otsuThreshold ops (data r)
      in sharp_threshold threshold sharpImage)"

text \<open>Pixel-wise inversion of a raster, for the polarity symmetry.\<close>

definition inverted :: "raster \<Rightarrow> raster" where
  "inverted r = r\<lparr>data := map (\<lambda>v. 255 - v) (data r)\<rparr>"

text \<open>
  What the ROI scan of the inverted raster returns, in terms of the scan of the raster:
  the same count, and the sum of the inverted samples.
\<close>

definition roi_mirror :: "int option \<times> int \<Rightarrow> int option \<times> int" where
  "roi_mirror acc = (map_option (\<lambda>s. 255 * snd acc - s) (fst acc), snd acc)"

text \<open>
  A 4 by 4 test raster: the 2 by 2 block in the middle (which is the ROI) has the
  intensity \<open>c\<close>, the twelve samples around it have \<open>s\<close>.
\<close>

definition block_raster :: "byte \<Rightarrow> byte \<Rightarrow> raster" where
  "block_raster c s =
     \<lparr>data = [s, s, s, s,  s, c, c, s,  s, c, c, s,  s, s, s, s], width = 4, height = 4\<rparr>"

text \<open>
  A buffer of three intensities on which two cut points have nearly the same variance:
  87873 samples of 252, 263813 samples of 254 and 477980201 samples of 255.
\<close>

definition near_tie_buffer :: "byte list" where
  "near_tie_buffer = replicate 87873 252 @ replicate 263813 254 @ replicate 477980201 255"

section \<open>The readiness guard of \<open>/solve-captcha\<close>\<close>

text \<open>
  \<open>let isTesseractWorkerReady = false;
  const tesseractReadyPromise = initializeTesseractWorker();\<close>
  The promise is pending until \<open>initializeTesseractWorker\<close> returns; a failure of the
  initialization ends the process (\<open>process.exit(1)\<close>), so the promise is never rejected.
\<close>

datatype promise = Pending | Fulfilled

record server =
  isTesseractWorkerReady :: bool
  tesseractReadyPromise :: promise

definition server_start :: server where
  "server_start = \<lparr>isTesseractWorkerReady = False, tesseractReadyPromise = Pending\<rparr>"

text \<open>
  \<open>tesseractWorker = worker; isTesseractWorkerReady = true;\<close> and the return of the
  async function, which fulfils its promise, happen in one turn of the event loop.
\<close>

definition init_done :: "server \<Rightarrow> server" where
  "init_done s = s\<lparr>isTesseractWorkerReady := True, tesseractReadyPromise := Fulfilled\<rparr>"

inductive reachable :: "server \<Rightarrow> bool" where
  reach_start: "reachable server_start"
| reach_done: "reachable s \<Longrightarrow> tesseractReadyPromise s = Pending \<Longrightarrow> reachable (init_done s)"

text \<open>
  What a request has got when the handler can run no further in the server's state:
  it is parked at \<open>await tesseractReadyPromise\<close>, it has been answered with a status, or
  it has passed the guards and gone on to fetch and process the image.
\<close>

datatype outcome = Suspended | Status nat | Processing

text \<open>
  server.js:
  \<open>await tesseractReadyPromise;
  if (!isTesseractWorkerReady) return res.status(503).json(...);
  if (!imageUrl) return res.status(400).json(...);\<close>
  \<open>has_url\<close> says that \<open>req.body.imageUrl\<close> is truthy.
\<close>

definition solve_captcha :: "server \<Rightarrow> bool \<Rightarrow> outcome" where
  "solve_captcha s has_url =
     (case tesseractReadyPromise s of
        Pending \<Rightarrow> Suspended
      | Fulfilled \<Rightarrow>
          if \<not> isTesseractWorkerReady s then Status 503
          else if \<not> has_url then Status 400
          else Processing)"

text \<open>
  The variant without the \<open>await\<close> (and behind the password check, which is not
  modelled): \<open>if (!isTesseractWorkerReady) return res.status(503).json(...);\<close>
\<close>

definition solve_captcha_noawait :: "server \<Rightarrow> bool \<Rightarrow> outcome" where
  "solve_captcha_noawait s has_url =
     (if \<not> isTesseractWorkerReady s then Status 503
      else if \<not> has_url then Status 400
      else Processing)"

section \<open>Digit filter\<close>

text \<open>
  A JavaScript string is a sequence of UTF-16 code units, and a regular expression
  without the \<open>u\<close> flag matches code unit by code unit. \<open>\d\<close> is \<open>[0-9]\<close>, \<open>\D\<close> its
  complement, and \<open>\s\<close> the white space and line terminators of ECMAScript.
\<close>

type_synonym code_unit = "16 word"

definition is_digit :: "code_unit \<Rightarrow> bool" where
  "is_digit c \<longleftrightarrow> 0x30 \<le> c \<and> c \<le> 0x39"

definition is_space :: "code_unit \<Rightarrow> bool" where
  "is_space c \<longleftrightarrow>
     c \<in> {0x9, 0xA, 0xB, 0xC, 0xD, 0x20, 0xA0, 0x1680, 0x2028, 0x2029, 0x202F, 0x205F,
          0x3000, 0xFEFF} \<or> (0x2000 \<le> c \<and> c \<le> 0x200A)"

text \<open>server.js: \<open>const cleanedText = text.replace(/[\s\D]/g, '');\<close>\<close>

definition cleanedText :: "code_unit list \<Rightarrow> code_unit list" where
  "cleanedText text = filter (\<lambda>c. \<not> (is_space c \<or> \<not> is_digit c)) text"

text \<open>The variant: \<open>result.data.text.replace(/[^\d]/g, '')\<close>.\<close>

definition cleanedText_alt :: "code_unit list \<Rightarrow> code_unit list" where
  "cleanedText_alt text = filter (\<lambda>c. \<not> \<not> is_digit c) text"

section \<open>The scan and its invariant\<close>

declare otsu_scan.simps [simp del]

lemma prefix_w_Suc: "prefix_w hist (Suc t) = prefix_w hist t + hist ! t"
  by (simp add: prefix_w_def)

lemma prefix_s_Suc: "prefix_s hist (Suc t) = prefix_s hist t + int t * hist ! t"
  by (simp add: prefix_s_def)

lemma prefix_w_mono:
  assumes "\<forall>k<256. 0 \<le> hist ! k" "i \<le> j" "j \<le> 256"
  shows "prefix_w hist i \<le> prefix_w hist j"
  using assms(2,3)
proof (induction j)
  case 0
  then show ?case by simp
next
  case (Suc j)
  show ?case
  proof (cases "i = Suc j")
    case True
    then show ?thesis by simp
  next
    case False
    with Suc have "prefix_w hist i \<le> prefix_w hist j" by simp
    moreover have "0 \<le> hist ! j" using assms(1) Suc.prems by simp
    ultimately show ?thesis by (simp add: prefix_w_Suc)
  qed
qed

lemma prefix_w_nonneg:
  assumes "\<forall>k<256. 0 \<le> hist ! k" "t \<le> 256"
  shows "0 \<le> prefix_w hist t"
  using prefix_w_mono [OF assms(1), of 0 t] assms(2) by (simp add: prefix_w_def)

lemma scan_inv_exit:
  assumes inv: "scan_inv ops hist total_px sum_all t varMax threshold"
    and deg: "\<forall>k<256. t \<le> k \<longrightarrow> \<not> nondeg hist total_px k"
    and t: "t \<le> 256"
  shows "scan_inv ops hist total_px sum_all 256 varMax threshold"
proof -
  have *: "k < t" if "k < 256" "nondeg hist total_px k" for k
    using deg that by (meson not_le)
  show ?thesis
    using inv t unfolding scan_inv_def
    by (auto dest: * split: if_splits)
qed

lemma otsu_scan_inv:
  assumes "\<forall>k<256. 0 \<le> hist ! k"
    and "total_px = prefix_w hist 256"
    and "t \<le> 256"
    and "wB = prefix_w hist t"
    and "sumB = prefix_s hist t"
    and "scan_inv ops hist total_px sum_all t varMax threshold"
  shows "\<exists>vm. scan_inv ops hist total_px sum_all 256 vm
           (otsu_scan ops hist total_px sum_all t sumB wB varMax threshold)"
  using assms
proof (induction ops hist total_px sum_all t sumB wB varMax threshold rule: otsu_scan.induct)
  case (1 ops hist total_px sum_all t sumB wB varMax threshold)
  note nonneg = \<open>\<forall>k<256. 0 \<le> hist ! k\<close>
  note inv = \<open>scan_inv ops hist total_px sum_all t varMax threshold\<close>
  show ?case
  proof (cases "t < 256")
    case False
    with "1.prems" have "t = 256" by simp
    with inv show ?thesis by (subst otsu_scan.simps) auto
  next
    case t: True
    define wB' where "wB' = wB + hist ! t"
    have wB': "wB' = prefix_w hist (t + 1)"
      using "1.prems" by (simp add: wB'_def prefix_w_Suc)
    show ?thesis
    proof (cases "wB' = 0")
      case z: True
      have "0 \<le> prefix_w hist t" using prefix_w_nonneg [OF nonneg] t by simp
      moreover have "0 \<le> hist ! t" using nonneg t by simp
      ultimately have "hist ! t = 0" using z wB' by (simp add: prefix_w_Suc)
      then have s: "sumB = prefix_s hist (t + 1)"
        using "1.prems" by (simp add: prefix_s_Suc)
      have nd: "\<not> nondeg hist total_px t" using z wB' by (simp add: nondeg_def)
      have inv': "scan_inv ops hist total_px sum_all (t + 1) varMax threshold"
        using inv nd unfolding scan_inv_def
        by (auto simp: less_Suc_eq split: if_splits)
      have "\<exists>vm. scan_inv ops hist total_px sum_all 256 vm
              (otsu_scan ops hist total_px sum_all (t + 1) sumB wB' varMax threshold)"
        using "1.IH"(1) [OF t wB'_def z nonneg "1.prems"(2) _ wB' s inv'] t by simp
      then show ?thesis
        using t z by (subst otsu_scan.simps) (simp add: wB'_def Let_def)
    next
      case nz: False
      define wF where "wF = total_px - wB'"
      show ?thesis
      proof (cases "wF = 0")
        case brk: True
        have "\<not> nondeg hist total_px k" if "k < 256" "t \<le> k" for k
        proof -
          have "prefix_w hist (t + 1) \<le> prefix_w hist (k + 1)"
            using prefix_w_mono [OF nonneg, of "t + 1" "k + 1"] that by simp
          moreover have "prefix_w hist (k + 1) \<le> prefix_w hist 256"
            using prefix_w_mono [OF nonneg, of "k + 1" 256] that by simp
          ultimately have "prefix_w hist (k + 1) = total_px"
            using brk wB' "1.prems"(2) by (simp add: wF_def)
          then show ?thesis by (simp add: nondeg_def)
        qed
        then have "scan_inv ops hist total_px sum_all 256 varMax threshold"
          using scan_inv_exit [OF inv] t by simp
        then show ?thesis
          using t nz brk by (subst otsu_scan.simps) (auto simp: wB'_def wF_def Let_def)
      next
        case nb: False
        define sumB' where "sumB' = sumB + int t * hist ! t"
        define bv where "bv = betweenVar ops wB' wF sumB' sum_all"
        have s: "sumB' = prefix_s hist (t + 1)"
          using "1.prems" by (simp add: sumB'_def prefix_s_Suc)
        have nd: "nondeg hist total_px t"
          using nz nb wB' by (auto simp: nondeg_def wF_def)
        have bv: "bv = cut_var ops hist total_px sum_all t"
          unfolding bv_def cut_var_def wF_def using wB' s by simp
        show ?thesis
        proof (cases "bv > varMax")
          case gt: True
          have inv': "scan_inv ops hist total_px sum_all (t + 1) bv t"
            using inv nd gt bv unfolding scan_inv_def
            by (auto simp: less_Suc_eq split: if_splits)
          have "\<exists>vm. scan_inv ops hist total_px sum_all 256 vm
              (otsu_scan ops hist total_px sum_all (t + 1) sumB' wB' bv t)"
            using "1.IH"(2) [OF t wB'_def nz wF_def nb sumB'_def bv_def gt nonneg "1.prems"(2) _ wB' s inv'] t
            by simp
          then show ?thesis
            using t nz nb gt
            by (subst otsu_scan.simps) (simp add: wB'_def wF_def sumB'_def bv_def Let_def)
        next
          case le: False
          have inv': "scan_inv ops hist total_px sum_all (t + 1) varMax threshold"
            using inv nd le bv unfolding scan_inv_def
            by (auto simp: less_Suc_eq split: if_splits)
          have "\<exists>vm. scan_inv ops hist total_px sum_all 256 vm
              (otsu_scan ops hist total_px sum_all (t + 1) sumB' wB' varMax threshold)"
            using "1.IH"(3) [OF t wB'_def nz wF_def nb sumB'_def bv_def le nonneg "1.prems"(2) _ wB' s inv'] t
            by simp
          then show ?thesis
            using t nz nb le
            by (subst otsu_scan.simps) (simp add: wB'_def wF_def sumB'_def bv_def Let_def)
        qed
      qed
    qed
  qed
qed

subsection \<open>The histogram and the running sums\<close>

lemma unat_byte_less: "unat (v :: byte) < 256"
  using unsigned_less [of v, where ?'a = nat] by simp

lemma hist_fold_length:
  "length (fold (\<lambda>v hist. hist[unat v := hist ! unat v + 1]) d h) = length h"
  by (induction d arbitrary: h) auto

lemma hist_fold_nth:
  "k < length h \<Longrightarrow>
   fold (\<lambda>v hist. hist[unat v := hist ! unat v + (1::int)]) d h ! k =
     h ! k + int (length (filter (\<lambda>v. unat v = k) d))"
proof (induction d arbitrary: h)
  case Nil
  then show ?case by simp
next
  case (Cons v d)
  have "k < length (h[unat v := h ! unat v + 1])" using Cons.prems by simp
  from Cons.IH [OF this] Cons.prems show ?case
    by (auto simp: nth_list_update)
qed

lemma length_hist_of: "length (hist_of d) = 256"
  by (simp add: hist_of_def hist_fold_length)

lemma hist_of_nth:
  "k < 256 \<Longrightarrow> hist_of d ! k = int (length (filter (\<lambda>v. unat v = k) d))"
  by (simp add: hist_of_def hist_fold_nth)

lemma hist_of_nonneg: "\<forall>k<256. 0 \<le> hist_of d ! k"
  by (simp add: hist_of_nth)

lemma filter_less_Suc_length:
  "length (filter (\<lambda>v. unat v < Suc t) (d :: byte list)) =
     length (filter (\<lambda>v. unat v < t) d) + length (filter (\<lambda>v. unat v = t) d)"
  by (induction d) auto

lemma uint_of_unat: "unat (v :: byte) = t \<Longrightarrow> uint v = int t"
  by (simp only: uint_nat)

lemma filter_less_Suc_sum:
  "sum_list (map uint (filter (\<lambda>v. unat v < Suc t) (d :: byte list))) =
     sum_list (map uint (filter (\<lambda>v. unat v < t) d)) + int t * int (length (filter (\<lambda>v. unat v = t) d))"
proof (induction d)
  case Nil
  then show ?case by simp
next
  case (Cons a d)
  show ?case
  proof (cases "unat a < t")
    case True
    with Cons show ?thesis by simp
  next
    case False
    show ?thesis
    proof (cases "unat a = t")
      case True
      with Cons uint_of_unat [OF True] show ?thesis by (simp add: algebra_simps)
    next
      case ne: False
      with False have "\<not> unat a < Suc t" by simp
      with Cons False ne show ?thesis by simp
    qed
  qed
qed

lemma prefix_w_hist_of:
  "t \<le> 256 \<Longrightarrow> prefix_w (hist_of d) t = int (length (filter (\<lambda>v. unat v < t) d))"
proof (induction t)
  case 0
  then show ?case by (simp add: prefix_w_def)
next
  case (Suc t)
  then show ?case
    by (simp add: prefix_w_Suc hist_of_nth filter_less_Suc_length)
qed

lemma prefix_s_hist_of:
  "t \<le> 256 \<Longrightarrow> prefix_s (hist_of d) t = sum_list (map uint (filter (\<lambda>v. unat v < t) d))"
proof (induction t)
  case 0
  then show ?case by (simp add: prefix_s_def)
next
  case (Suc t)
  then show ?case
    by (simp add: prefix_s_Suc hist_of_nth filter_less_Suc_sum)
qed

lemma prefix_w_class: "t < 256 \<Longrightarrow> prefix_w (hist_of d) (Suc t) = class_wB d t"
  by (simp add: prefix_w_hist_of class_wB_def less_Suc_eq_le)

lemma prefix_s_class: "t < 256 \<Longrightarrow> prefix_s (hist_of d) (Suc t) = class_sumB d t"
  by (simp add: prefix_s_hist_of class_sumB_def less_Suc_eq_le)

lemma prefix_w_total: "prefix_w (hist_of d) 256 = int (length d)"
  by (simp add: prefix_w_hist_of unat_byte_less)

lemma prefix_s_total: "prefix_s (hist_of d) 256 = sum_list (map uint d)"
  by (simp add: prefix_s_hist_of unat_byte_less)

lemma fold_upt_sum:
  "fold (\<lambda>t acc. acc + f t) [0..<n] (a::int) = a + (\<Sum>k<n. f k)"
  by (induction n) (auto simp: algebra_simps)

lemma sum_of_hist_prefix: "sum_of_hist hist = prefix_s hist 256"
  by (simp add: sum_of_hist_def prefix_s_def fold_upt_sum)

lemma sum_of_hist_of: "sum_of_hist (hist_of d) = sum_list (map uint d)"
  by (simp add: sum_of_hist_prefix prefix_s_total)

lemma scan_inv_start: "scan_inv ops hist total_px sum_all 0 0 0"
  by (simp add: scan_inv_def)

lemma otsuLike_inv:
  "\<exists>vm. scan_inv ops (hist_of d) (int (length d)) (sum_list (map uint d)) 256 vm (otsuLike ops d)"
proof -
  have "\<exists>vm. scan_inv ops (hist_of d) (int (length d)) (sum_list (map uint d)) 256 vm
          (otsu_scan ops (hist_of d) (int (length d)) (sum_list (map uint d)) 0 0 0 0 0)"
  proof (rule otsu_scan_inv [OF hist_of_nonneg])
    show "int (length d) = prefix_w (hist_of d) 256" by (simp only: prefix_w_total)
    show "(0::nat) \<le> 256" by simp
    show "0 = prefix_w (hist_of d) 0" by (simp add: prefix_w_def)
    show "0 = prefix_s (hist_of d) 0" by (simp add: prefix_s_def)
    show "scan_inv ops (hist_of d) (int (length d)) (sum_list (map uint d)) 0 0 0"
      by (rule scan_inv_start)
  qed
  then show ?thesis
    by (simp add: otsuLike_def sum_of_hist_of Let_def)
qed

lemma between_class_variance_cut:
  "t < 256 \<Longrightarrow>
   between_class_variance ops d t =
     (if nondeg (hist_of d) (int (length d)) t
      then cut_var ops (hist_of d) (int (length d)) (sum_list (map uint d)) t else 0)"
  by (auto simp: between_class_variance_def nondeg_def cut_var_def Let_def
      prefix_w_class prefix_s_class)

subsection \<open>Rounding\<close>

lemma sound_ops_exact: "sound_ops exact"
proof -
  have "1 \<le> x * x" if "1 \<le> \<bar>x\<bar>" for x :: rat
    using mult_mono [of 1 "\<bar>x\<bar>" 1 "\<bar>x\<bar>"] that by (simp add: abs_mult_self_eq)
  then show ?thesis by (simp add: sound_ops_def exact_def)
qed

lemma rnd_mono: "sound_ops ops \<Longrightarrow> x \<le> y \<Longrightarrow> rnd ops x \<le> rnd ops y"
  by (simp add: sound_ops_def)

lemma rnd_of_int: "sound_ops ops \<Longrightarrow> \<bar>k\<bar> \<le> 256 \<Longrightarrow> rnd ops (of_int k) = of_int k"
  by (simp add: sound_ops_def)

lemma rnd_ge_int:
  assumes "sound_ops ops" "\<bar>k\<bar> \<le> 256" "of_int k \<le> x"
  shows "of_int k \<le> rnd ops x"
  using rnd_mono [OF assms(1,3)] rnd_of_int [OF assms(1,2)] by simp

lemma rnd_le_int:
  assumes "sound_ops ops" "\<bar>k\<bar> \<le> 256" "x \<le> of_int k"
  shows "rnd ops x \<le> of_int k"
  using rnd_mono [OF assms(1,3)] rnd_of_int [OF assms(1,2)] by simp

lemma sqr_nonneg: "sound_ops ops \<Longrightarrow> 0 \<le> sqr ops x"
  by (simp add: sound_ops_def)

lemma sqr_ge_1: "sound_ops ops \<Longrightarrow> 1 \<le> \<bar>x\<bar> \<Longrightarrow> 1 \<le> sqr ops x"
  by (simp add: sound_ops_def)

lemma betweenVar_nonneg:
  assumes ops: "sound_ops ops" and "0 \<le> wB" "0 \<le> wF"
  shows "0 \<le> betweenVar ops wB wF sumB sum_all"
proof -
  have "(of_int 0 :: rat) \<le> of_int wB * of_int wF" using assms(2,3) by simp
  then have 1: "of_int 0 \<le> rnd ops (of_int wB * of_int wF)"
    by (intro rnd_ge_int [OF ops]) simp_all
  have 2: "0 \<le> sqr ops x" for x by (rule sqr_nonneg [OF ops])
  have "(of_int 0 :: rat) \<le> rnd ops (of_int wB * of_int wF) * sqr ops x" for x
    using 1 2 [of x] by simp
  then have "of_int 0 \<le> rnd ops (rnd ops (of_int wB * of_int wF) * sqr ops x)" for x
    by (intro rnd_ge_int [OF ops]) simp_all
  then show ?thesis
    by (simp add: betweenVar_def js_mul_def js_pow2_def Let_def)
qed

lemma betweenVar_ge_1:
  assumes ops: "sound_ops ops"
    and wB: "1 \<le> wB" and wF: "1 \<le> wF" and m: "0 \<le> m" "m \<le> 254"
    and sumB: "sumB = m * wB"
    and rest: "(m + 1) * wF \<le> sum_all - sumB"
  shows "1 \<le> betweenVar ops wB wF sumB sum_all"
proof -
  define mB where "mB = js_div ops (of_int sumB) (of_int wB)"
  define mF where "mF = js_div ops (of_int (sum_all - sumB)) (of_int wF)"
  have "(of_int sumB :: rat) / of_int wB = of_int m"
    using wB by (simp add: sumB)
  then have mB: "mB = of_int m"
    using rnd_of_int [OF ops, of m] m by (simp add: mB_def js_div_def)
  have "(of_int ((m + 1) * wF) :: rat) \<le> of_int (sum_all - sumB)"
    using rest by (simp only: of_int_le_iff)
  then have "(of_int (m + 1) :: rat) \<le> of_int (sum_all - sumB) / of_int wF"
    using wF by (simp add: pos_le_divide_eq)
  then have mF: "of_int (m + 1) \<le> mF"
    unfolding mF_def js_div_def using m by (intro rnd_ge_int [OF ops]) simp_all
  have "mB - mF \<le> of_int (- 1)" using mB mF by simp
  then have "js_sub ops mB mF \<le> of_int (- 1)"
    unfolding js_sub_def by (intro rnd_le_int [OF ops]) simp_all
  then have "1 \<le> \<bar>js_sub ops mB mF\<bar>" by simp
  then have sq: "1 \<le> js_pow2 ops (js_sub ops mB mF)"
    unfolding js_pow2_def by (rule sqr_ge_1 [OF ops])
  have "1 * 1 \<le> wB * wF" using wB wF by (intro mult_mono) simp_all
  then have "(of_int 1 :: rat) \<le> of_int wB * of_int wF"
    by (simp only: of_int_mult [symmetric] of_int_le_iff mult_1)
  then have w: "of_int 1 \<le> js_mul ops (of_int wB) (of_int wF)"
    unfolding js_mul_def by (intro rnd_ge_int [OF ops]) simp_all
  have "(1::rat) * 1 \<le> js_mul ops (of_int wB) (of_int wF) * js_pow2 ops (js_sub ops mB mF)"
    using w sq by (intro mult_mono) simp_all
  then have "of_int 1 \<le>
      rnd ops (js_mul ops (of_int wB) (of_int wF) * js_pow2 ops (js_sub ops mB mF))"
    by (intro rnd_ge_int [OF ops]) simp_all
  then show ?thesis
    by (simp add: betweenVar_def Let_def mB_def mF_def js_mul_def)
qed

subsection \<open>The result of \<open>otsuLike\<close> against the variance of every cut point\<close>

lemma class_wB_bounds: "0 \<le> class_wB d t \<and> class_wB d t \<le> int (length d)"
  by (simp add: class_wB_def)

lemma between_class_variance_nonneg:
  "sound_ops ops \<Longrightarrow> 0 \<le> between_class_variance ops d t"
  using class_wB_bounds [of d t]
  by (simp add: between_class_variance_def Let_def betweenVar_nonneg)

lemma between_class_variance_pos:
  "between_class_variance ops d t \<noteq> 0 \<Longrightarrow>
     class_wB d t \<noteq> 0 \<and> class_wB d t \<noteq> int (length d)"
  by (auto simp: between_class_variance_def Let_def split: if_splits)

lemma nondeg_class:
  "t < 256 \<Longrightarrow> nondeg (hist_of d) (int (length d)) t \<longleftrightarrow>
     class_wB d t \<noteq> 0 \<and> class_wB d t \<noteq> int (length d)"
  by (simp add: nondeg_def prefix_w_class)

lemma otsuLike_cases:
  obtains (flat) "otsuLike ops d = 0"
      "\<And>k. k < 256 \<Longrightarrow> between_class_variance ops d k \<le> 0"
  | (peak) "otsuLike ops d < 256"
      "0 < between_class_variance ops d (otsuLike ops d)"
      "\<And>k. k < 256 \<Longrightarrow> between_class_variance ops d k \<le> between_class_variance ops d (otsuLike ops d)"
      "\<And>k. k < otsuLike ops d \<Longrightarrow> between_class_variance ops d k < between_class_variance ops d (otsuLike ops d)"
proof -
  let ?h = "hist_of d" and ?n = "int (length d)" and ?s = "sum_list (map uint d)"
  let ?r = "otsuLike ops d"
  obtain vm where inv: "scan_inv ops ?h ?n ?s 256 vm ?r"
    using otsuLike_inv by blast
  have vm0: "0 \<le> vm" using inv by (simp add: scan_inv_def)
  have le: "cut_var ops ?h ?n ?s k \<le> vm" if "k < 256" "nondeg ?h ?n k" for k
    using inv that by (simp add: scan_inv_def)
  have bcv_le: "between_class_variance ops d k \<le> vm" if "k < 256" for k
    using le [OF that] vm0 that by (simp add: between_class_variance_cut)
  show thesis
  proof (cases "vm = 0")
    case True
    then have "?r = 0" using inv by (simp add: scan_inv_def)
    then show thesis using bcv_le True by (intro flat) auto
  next
    case False
    then have r: "?r < 256" "nondeg ?h ?n ?r" "cut_var ops ?h ?n ?s ?r = vm"
      and lt: "\<And>k. k < ?r \<Longrightarrow> nondeg ?h ?n k \<Longrightarrow> cut_var ops ?h ?n ?s k < vm"
      using inv by (simp_all add: scan_inv_def)
    have eq: "between_class_variance ops d ?r = vm"
      using r by (simp add: between_class_variance_cut)
    have pos: "0 < vm" using vm0 False by simp
    have "between_class_variance ops d k < vm" if "k < ?r" for k
    proof -
      have k: "k < 256" using that r(1) by simp
      show ?thesis using lt [OF that] pos k by (simp add: between_class_variance_cut)
    qed
    then show thesis using r(1) eq pos bcv_le by (intro peak) auto
  qed
qed

lemma otsuLike_le_255: "otsuLike ops d \<le> 255"
  by (cases ops d rule: otsuLike_cases) simp_all

lemma otsuLike_max:
  assumes "sound_ops ops" "t \<le> 255"
  shows "between_class_variance ops d t \<le> between_class_variance ops d (otsuLike ops d)"
proof (cases ops d rule: otsuLike_cases)
  case flat
  have "between_class_variance ops d t \<le> 0" using flat(2) assms(2) by simp
  then show ?thesis using between_class_variance_nonneg [OF assms(1)] by (simp add: order_trans)
next
  case peak
  then show ?thesis using assms(2) by simp
qed

lemma otsuLike_first:
  assumes "between_class_variance ops d (otsuLike ops d) \<le> between_class_variance ops d t"
  shows "otsuLike ops d \<le> t"
proof (cases ops d rule: otsuLike_cases)
  case flat
  then show ?thesis by simp
next
  case peak
  show ?thesis
  proof (rule ccontr)
    assume "\<not> otsuLike ops d \<le> t"
    then have "t < otsuLike ops d" by simp
    from peak(4) [OF this] assms show False by simp
  qed
qed

subsection \<open>\<open>otsuThreshold\<close> agrees with \<open>otsuLike\<close> below \<open>2 ^ 32\<close> samples\<close>

lemma hist_sum_fold:
  assumes "length h = 256"
    and "\<forall>k<256. 0 \<le> h ! k \<and> h ! k + int (length d) < 2 ^ 32"
  shows "fold (\<lambda>val (hist, acc).
            (hist[unat val := (hist ! unat val + 1) mod 2 ^ 32], acc + uint val))
           (d :: byte list) (h, a) =
         (fold (\<lambda>v hist. hist[unat v := hist ! unat v + 1]) d h, a + sum_list (map uint d))"
  using assms
proof (induction d arbitrary: h a)
  case Nil
  then show ?case by simp
next
  case (Cons v d)
  let ?h = "h[unat v := h ! unat v + 1]"
  have v: "unat v < 256" by (rule unat_byte_less)
  have "0 \<le> h ! unat v + 1" "h ! unat v + 1 < 2 ^ 32"
    using Cons.prems(2) v by fastforce+
  then have m: "(h ! unat v + 1) mod 4294967296 = h ! unat v + 1" by simp
  have len: "length ?h = 256" using Cons.prems(1) by simp
  have bnd: "\<forall>k<256. 0 \<le> ?h ! k \<and> ?h ! k + int (length d) < 2 ^ 32"
  proof (intro allI impI)
    fix k :: nat
    assume k: "k < 256"
    then have "0 \<le> h ! k \<and> h ! k + int (length (v # d)) < 2 ^ 32"
      using Cons.prems(2) by blast
    then show "0 \<le> ?h ! k \<and> ?h ! k + int (length d) < 2 ^ 32"
      using k Cons.prems(1) by (cases "k = unat v") simp_all
  qed
  show ?case
    using Cons.IH [OF len bnd, of "a + uint v"] by (simp add: m add.assoc)
qed

lemma hist_sum_of_eq:
  assumes "length d < 2 ^ 32"
  shows "hist_sum_of d = (hist_of d, sum_list (map uint d))"
proof -
  have "int (length d) < 2 ^ 32"
    using assms by (metis of_nat_less_iff of_nat_numeral of_nat_power)
  then have "\<forall>k<256. 0 \<le> replicate 256 (0::int) ! k \<and>
      replicate 256 (0::int) ! k + int (length d) < 2 ^ 32"
    by simp
  from hist_sum_fold [OF _ this, of 0] show ?thesis
    by (simp add: hist_sum_of_def hist_of_def)
qed

lemma otsuThreshold_eq:
  "length d < 2 ^ 32 \<Longrightarrow> otsuThreshold ops d = otsuLike ops d"
  by (simp add: otsuThreshold_def otsuLike_def hist_sum_of_eq sum_of_hist_of Let_def)

subsection \<open>Uniform buffers\<close>

lemma class_wB_uniform:
  assumes "\<forall>v\<in>set d. v = c"
  shows "class_wB d t = 0 \<or> class_wB d t = int (length d)"
proof (cases "unat c \<le> t")
  case True
  then have "filter (\<lambda>v. unat v \<le> t) d = d" using assms by (auto simp: filter_id_conv)
  then show ?thesis by (simp add: class_wB_def)
next
  case False
  then have "filter (\<lambda>v. unat v \<le> t) d = []" using assms by (auto simp: filter_empty_conv)
  then show ?thesis by (simp add: class_wB_def)
qed

lemma otsuLike_uniform:
  assumes "\<forall>v\<in>set d. v = c"
  shows "otsuLike ops d = 0"
proof (cases ops d rule: otsuLike_cases)
  case flat
  then show ?thesis by simp
next
  case peak
  then have "between_class_variance ops d (otsuLike ops d) \<noteq> 0" by simp
  from between_class_variance_pos [OF this] class_wB_uniform [OF assms, of "otsuLike ops d"]
  show ?thesis by simp
qed

subsection \<open>Two distinct intensities\<close>

lemma class_sumB_at_min:
  assumes "\<forall>v\<in>set d. m \<le> unat v"
  shows "class_sumB d m = int m * class_wB d m"
  using assms
proof (induction d)
  case Nil
  then show ?case by (simp add: class_sumB_def class_wB_def)
next
  case (Cons v d)
  then have IH: "class_sumB d m = int m * class_wB d m" by simp
  show ?case
  proof (cases "unat v \<le> m")
    case True
    with Cons.prems have "unat v = m" by simp
    from uint_of_unat [OF this] True IH show ?thesis
      by (simp add: class_sumB_def class_wB_def algebra_simps)
  next
    case False
    with IH show ?thesis by (simp add: class_sumB_def class_wB_def)
  qed
qed

lemma sum_above_min:
  "class_sumB d m + (int m + 1) * (int (length d) - class_wB d m) \<le> sum_list (map uint d)"
proof (induction d)
  case Nil
  then show ?case by (simp add: class_sumB_def class_wB_def)
next
  case (Cons v d)
  show ?case
  proof (cases "unat v \<le> m")
    case True
    with Cons show ?thesis by (simp add: class_sumB_def class_wB_def algebra_simps)
  next
    case False
    then have "m + 1 \<le> unat v" by simp
    then have "int (m + 1) \<le> int (unat v)" by (simp only: of_nat_le_iff)
    then have u: "int m + 1 \<le> uint v" unfolding uint_nat by simp
    have "(int m + 1) * (int (length (v # d)) - class_wB (v # d) m) =
        (int m + 1) * (int (length d) - class_wB d m) + (int m + 1)"
      using False by (simp add: class_wB_def algebra_simps)
    moreover have "class_sumB (v # d) m = class_sumB d m"
      using False by (simp add: class_sumB_def)
    moreover have "sum_list (map uint (v # d)) = uint v + sum_list (map uint d)" by simp
    ultimately show ?thesis using Cons u by linarith
  qed
qed

lemma variance_at_min:
  assumes ops: "sound_ops ops" and a: "a \<in> set d" and b: "b \<in> set d" and ab: "a \<noteq> b"
  shows "1 \<le> between_class_variance ops d (Min (unat ` set d))"
proof -
  let ?m = "Min (unat ` set d)"
  have fin: "finite (unat ` set d)" "unat ` set d \<noteq> {}" using a by auto
  have min: "\<forall>v\<in>set d. ?m \<le> unat v" using fin by simp
  obtain lo where lo: "lo \<in> set d" "unat lo = ?m"
    using Min_in [OF fin] by (metis imageE)
  have "unat a \<noteq> unat b" using ab by (simp add: word_unat_eq_iff)
  then obtain hi where hi: "hi \<in> set d" "?m < unat hi"
    using min a b by (metis le_neq_implies_less)
  have m254: "int ?m \<le> 254"
    using hi(2) unat_byte_less [of hi] by simp
  have "lo \<in> set (filter (\<lambda>v. unat v \<le> ?m) d)" using lo by simp
  then have "0 < length (filter (\<lambda>v. unat v \<le> ?m) d)"
    by (metis length_pos_if_in_set)
  then have wB: "1 \<le> class_wB d ?m" unfolding class_wB_def by linarith
  have "length (filter (\<lambda>v. unat v \<le> ?m) d) < length d"
    using hi by (intro length_filter_less [of hi]) simp_all
  then have wF: "1 \<le> int (length d) - class_wB d ?m" unfolding class_wB_def by linarith
  have sumB: "class_sumB d ?m = int ?m * class_wB d ?m"
    by (rule class_sumB_at_min [OF min])
  have rest: "(int ?m + 1) * (int (length d) - class_wB d ?m)
      \<le> sum_list (map uint d) - class_sumB d ?m"
    using sum_above_min [of d ?m] by simp
  have "1 \<le> betweenVar ops (class_wB d ?m) (int (length d) - class_wB d ?m)
      (class_sumB d ?m) (sum_list (map uint d))"
    by (rule betweenVar_ge_1 [OF ops wB wF _ m254 sumB rest]) simp
  then show ?thesis
    using wB wF by (simp add: between_class_variance_def Let_def)
qed

lemma otsuLike_splits:
  assumes ops: "sound_ops ops" and a: "a \<in> set d" and b: "b \<in> set d" and ab: "a \<noteq> b"
  shows "(\<exists>v\<in>set d. unat v \<le> otsuLike ops d) \<and> (\<exists>v\<in>set d. otsuLike ops d < unat v)"
proof -
  let ?r = "otsuLike ops d"
  have "Min (unat ` set d) \<le> unat a" using a by simp
  then have "Min (unat ` set d) \<le> 255"
    using unat_byte_less [of a] by linarith
  from otsuLike_max [OF ops this, of d] variance_at_min [OF assms]
  have "between_class_variance ops d ?r \<noteq> 0" by simp
  from between_class_variance_pos [OF this]
  have w: "class_wB d ?r \<noteq> 0" "class_wB d ?r \<noteq> int (length d)" by simp_all
  from w(1) have "filter (\<lambda>v. unat v \<le> ?r) d \<noteq> []" by (simp add: class_wB_def)
  then have 1: "\<exists>v\<in>set d. unat v \<le> ?r" by (simp add: filter_empty_conv)
  from w(2) have "filter (\<lambda>v. unat v \<le> ?r) d \<noteq> d"
    by (auto simp: class_wB_def)
  then have 2: "\<exists>v\<in>set d. ?r < unat v" by (auto simp: filter_id_conv not_le)
  from 1 2 show ?thesis ..
qed

lemma otsuLike_min_max:
  assumes ops: "sound_ops ops" and a: "a \<in> set d" and b: "b \<in> set d" and ab: "a \<noteq> b"
  shows "Min (unat ` set d) \<le> otsuLike ops d \<and> otsuLike ops d < Max (unat ` set d)"
proof -
  have fin: "finite (unat ` set d)" by simp
  from otsuLike_splits [OF assms] obtain lo hi
    where lo: "lo \<in> set d" "unat lo \<le> otsuLike ops d"
      and hi: "hi \<in> set d" "otsuLike ops d < unat hi" by blast
  have "Min (unat ` set d) \<le> unat lo" using lo(1) by simp
  moreover have "unat hi \<le> Max (unat ` set d)" using hi(1) by simp
  ultimately show ?thesis using lo(2) hi(2) by simp
qed

section \<open>Doubles\<close>

subsection \<open>Round to nearest is sound\<close>

lemma bitlen_powi:
  assumes "0 < a"
  shows "(2::rat) powi (bitlen a - 1) \<le> of_int a" and "(of_int a :: rat) < 2 powi bitlen a"
proof -
  have l: "1 \<le> bitlen a" using assms bitlen_eq_zero_iff [of a] bitlen_nonneg [of a] by linarith
  from bitlen_bounds [OF assms]
  have 1: "2 ^ nat (bitlen a - 1) \<le> a" and 2: "a < 2 ^ nat (bitlen a)" by simp_all
  have "(of_int (2 ^ nat (bitlen a - 1)) :: rat) \<le> of_int a" using 1 by (simp only: of_int_le_iff)
  then show "(2::rat) powi (bitlen a - 1) \<le> of_int a"
    using l by (simp add: power_int_nonneg_exp)
  have "(of_int a :: rat) < of_int (2 ^ nat (bitlen a))" using 2 by (simp only: of_int_less_iff)
  then show "(of_int a :: rat) < 2 powi bitlen a"
    using l by (simp add: power_int_nonneg_exp)
qed

lemma floor_log2_bounds:
  assumes "0 < x"
  shows "2 powi floor_log2 x \<le> x" and "x < 2 powi (floor_log2 x + 1)"
proof -
  obtain a b where q: "quotient_of x = (a, b)" by (cases "quotient_of x")
  have b: "0 < b" by (rule quotient_of_denom_pos [OF q])
  have x: "x = of_int a / of_int b" by (rule quotient_of_div [OF q])
  have a: "0 < a" using assms b x by (simp add: zero_less_divide_iff)
  define k where "k = bitlen a - bitlen b"
  have "of_int a / of_int b < (2::rat) powi bitlen a / 2 powi (bitlen b - 1)"
    using bitlen_powi [OF a] bitlen_powi [OF b] a b
    by (intro frac_less) simp_all
  also have "\<dots> = 2 powi (k + 1)"
    by (simp add: k_def power_int_diff [symmetric] algebra_simps)
  finally have up: "x < 2 powi (k + 1)" by (simp add: x)
  have "(2::rat) powi (bitlen a - 1) / 2 powi bitlen b < of_int a / of_int b"
    using bitlen_powi [OF a] bitlen_powi [OF b] a b
    by (intro frac_less2) simp_all
  moreover have "(2::rat) powi (bitlen a - 1) / 2 powi bitlen b = 2 powi (k - 1)"
    by (simp add: k_def power_int_diff [symmetric] algebra_simps)
  ultimately have lo: "2 powi (k - 1) \<le> x" by (simp add: x)
  have f: "floor_log2 x = (if 2 powi k \<le> x then k else k - 1)"
    by (simp add: floor_log2_def q k_def Let_def)
  show "2 powi floor_log2 x \<le> x" using lo by (simp add: f)
  show "x < 2 powi (floor_log2 x + 1)" using up by (auto simp: f not_le)
qed

lemma floor_log2_unique:
  assumes "0 < x" "2 powi k \<le> x" "x < 2 powi (k + 1)"
  shows "floor_log2 x = k"
proof -
  let ?l = "floor_log2 x"
  have a: "(2::rat) powi k < 2 powi (?l + 1)"
    using assms(2) floor_log2_bounds(2) [OF assms(1)] by (rule le_less_trans)
  have 1: "k < ?l + 1"
  proof (rule ccontr)
    assume "\<not> k < ?l + 1"
    then have "?l + 1 \<le> k" by simp
    then have "(2::rat) powi (?l + 1) \<le> 2 powi k"
      by (intro power_int_increasing) simp_all
    with a show False by simp
  qed
  have b: "(2::rat) powi ?l < 2 powi (k + 1)"
    using floor_log2_bounds(1) [OF assms(1)] assms(3) by (rule le_less_trans)
  have 2: "?l < k + 1"
  proof (rule ccontr)
    assume "\<not> ?l < k + 1"
    then have "k + 1 \<le> ?l" by simp
    then have "(2::rat) powi (k + 1) \<le> 2 powi ?l"
      by (intro power_int_increasing) simp_all
    with b show False by simp
  qed
  from 1 2 show ?thesis by simp
qed

lemma floor_log2_mono:
  assumes "0 < x" "x \<le> y"
  shows "floor_log2 x \<le> floor_log2 y"
proof (rule ccontr)
  assume "\<not> floor_log2 x \<le> floor_log2 y"
  then have "floor_log2 y + 1 \<le> floor_log2 x" by simp
  then have "(2::rat) powi (floor_log2 y + 1) \<le> 2 powi floor_log2 x"
    by (intro power_int_increasing) simp_all
  also have "\<dots> \<le> x" by (rule floor_log2_bounds(1) [OF assms(1)])
  finally have "2 powi (floor_log2 y + 1) \<le> y" using assms(2) by simp
  moreover have "0 < y" using assms by simp
  ultimately show False using floor_log2_bounds(2) [of y] by simp
qed


lemma round_half_even_bounds:
  "\<lfloor>m\<rfloor> \<le> round_half_even m" "round_half_even m \<le> \<lfloor>m\<rfloor> + 1"
  by (simp_all add: round_half_even_def Let_def)

lemma round_half_even_int [simp]: "round_half_even (of_int k) = k"
  by (simp add: round_half_even_def)

lemma round_half_even_mono:
  assumes "m \<le> m'"
  shows "round_half_even m \<le> round_half_even m'"
proof (cases "\<lfloor>m\<rfloor> = \<lfloor>m'\<rfloor>")
  case True
  then have "m - of_int \<lfloor>m\<rfloor> \<le> m' - of_int \<lfloor>m'\<rfloor>" using assms by simp
  then show ?thesis
    using True by (auto simp: round_half_even_def Let_def)
next
  case False
  then have "\<lfloor>m\<rfloor> < \<lfloor>m'\<rfloor>" using floor_mono [OF assms] by simp
  then have "round_half_even m \<le> \<lfloor>m'\<rfloor>"
    using round_half_even_bounds(2) [of m] by simp
  then show ?thesis using round_half_even_bounds(1) [of m'] by simp
qed

lemma round_double_pos:
  assumes "0 < x"
  shows "round_double x =
     of_int (round_half_even (x / 2 powi (floor_log2 x - 52))) * 2 powi (floor_log2 x - 52)"
  using assms by (simp add: round_double_def Let_def)

lemma round_double_minus: "round_double (- x) = - round_double x"
  by (simp add: round_double_def Let_def)

lemma round_double_0 [simp]: "round_double 0 = 0"
  by (simp add: round_double_def)

lemma significand_bounds:
  assumes "0 < x"
  shows "2 ^ 52 \<le> x / 2 powi (floor_log2 x - 52)" and "x / 2 powi (floor_log2 x - 52) < 2 ^ 53"
proof -
  let ?l = "floor_log2 x"
  have p: "(0::rat) < 2 powi (?l - 52)" by simp
  have "(2::rat) powi 52 * 2 powi (?l - 52) = 2 powi (52 + (?l - 52))"
    by (rule power_int_add [symmetric]) simp
  then have e: "(2::rat) ^ 52 * 2 powi (?l - 52) = 2 powi ?l" by simp
  show "2 ^ 52 \<le> x / 2 powi (?l - 52)"
    using floor_log2_bounds(1) [OF assms] p e by (simp add: pos_le_divide_eq)
  have "(2::rat) powi 53 * 2 powi (?l - 52) = 2 powi (53 + (?l - 52))"
    by (rule power_int_add [symmetric]) simp
  then have e': "(2::rat) ^ 53 * 2 powi (?l - 52) = 2 powi (?l + 1)" by (simp add: algebra_simps)
  show "x / 2 powi (?l - 52) < 2 ^ 53"
    using floor_log2_bounds(2) [OF assms] p e' by (simp add: pos_divide_less_eq)
qed

lemma round_double_bounds:
  assumes "0 < x"
  shows "2 powi floor_log2 x \<le> round_double x" and "round_double x \<le> 2 powi (floor_log2 x + 1)"
proof -
  let ?l = "floor_log2 x" and ?m = "x / 2 powi (floor_log2 x - 52)"
  have p: "(0::rat) < 2 powi (?l - 52)" by simp
  have "(2::rat) powi 52 * 2 powi (?l - 52) = 2 powi (52 + (?l - 52))"
    by (rule power_int_add [symmetric]) simp
  then have e: "(2::rat) ^ 52 * 2 powi (?l - 52) = 2 powi ?l" by simp
  have "(2::rat) powi 53 * 2 powi (?l - 52) = 2 powi (53 + (?l - 52))"
    by (rule power_int_add [symmetric]) simp
  then have e': "(2::rat) ^ 53 * 2 powi (?l - 52) = 2 powi (?l + 1)" by (simp add: algebra_simps)
  have "(of_int (2 ^ 52) :: rat) \<le> ?m" using significand_bounds(1) [OF assms] by simp
  then have "(2::int) ^ 52 \<le> \<lfloor>?m\<rfloor>" by (simp only: le_floor_iff)
  then have "(2::int) ^ 52 \<le> round_half_even ?m"
    using round_half_even_bounds(1) [of ?m] by linarith
  then have "(of_int (2 ^ 52) :: rat) \<le> of_int (round_half_even ?m)"
    by (simp only: of_int_le_iff)
  then have "(2::rat) ^ 52 * 2 powi (?l - 52) \<le> of_int (round_half_even ?m) * 2 powi (?l - 52)"
    using p by simp
  then show "2 powi ?l \<le> round_double x"
    by (simp only: e round_double_pos [OF assms])
  have "?m < (of_int (2 ^ 53) :: rat)" using significand_bounds(2) [OF assms] by simp
  then have "\<lfloor>?m\<rfloor> < (2::int) ^ 53" by (simp only: floor_less_iff)
  then have "round_half_even ?m \<le> (2::int) ^ 53"
    using round_half_even_bounds(2) [of ?m] by linarith
  then have "(of_int (round_half_even ?m) :: rat) \<le> of_int (2 ^ 53)"
    by (simp only: of_int_le_iff)
  then have "of_int (round_half_even ?m) * 2 powi (?l - 52) \<le> (2::rat) ^ 53 * 2 powi (?l - 52)"
    using p by simp
  then show "round_double x \<le> 2 powi (?l + 1)"
    by (simp only: e' round_double_pos [OF assms])
qed

lemma round_double_positive: "0 < x \<Longrightarrow> 0 < round_double x"
  using round_double_bounds(1) [of x] zero_less_power_int [of "2::rat" "floor_log2 x"]
  by linarith

lemma round_double_mono_pos:
  assumes "0 < x" "x \<le> y"
  shows "round_double x \<le> round_double y"
proof -
  have y: "0 < y" using assms by simp
  show ?thesis
  proof (cases "floor_log2 x = floor_log2 y")
    case True
    have "x / 2 powi (floor_log2 y - 52) \<le> y / 2 powi (floor_log2 y - 52)"
      using assms(2) by (simp add: divide_right_mono)
    then have "round_half_even (x / 2 powi (floor_log2 y - 52))
        \<le> round_half_even (y / 2 powi (floor_log2 y - 52))"
      by (rule round_half_even_mono)
    then have "(of_int (round_half_even (x / 2 powi (floor_log2 y - 52))) :: rat)
        \<le> of_int (round_half_even (y / 2 powi (floor_log2 y - 52)))"
      by (simp only: of_int_le_iff)
    then show ?thesis
      by (simp add: round_double_pos [OF assms(1)] round_double_pos [OF y] True)
  next
    case False
    then have "floor_log2 x + 1 \<le> floor_log2 y"
      using floor_log2_mono [OF assms] by simp
    then have "(2::rat) powi (floor_log2 x + 1) \<le> 2 powi floor_log2 y"
      by (intro power_int_increasing) simp_all
    then show ?thesis
      using round_double_bounds(2) [OF assms(1)] round_double_bounds(1) [OF y] by linarith
  qed
qed

lemma round_double_mono:
  assumes "x \<le> y"
  shows "round_double x \<le> round_double y"
proof -
  consider "0 < x" | "x = 0" | "x < 0" "0 < y" | "x < 0" "y = 0" | "x < 0" "y < 0"
    using assms by linarith
  then show ?thesis
  proof cases
    case 1
    then show ?thesis by (rule round_double_mono_pos [OF _ assms])
  next
    case 2
    then show ?thesis
      using assms round_double_positive [of y] by (cases "y = 0") (simp_all add: less_imp_le)
  next
    case 3
    have "round_double x = - round_double (- x)" by (simp add: round_double_minus)
    moreover have "0 < round_double (- x)" using 3(1) by (intro round_double_positive) simp
    ultimately show ?thesis using round_double_positive [OF 3(2)] by linarith
  next
    case 4
    have "round_double x = - round_double (- x)" by (simp add: round_double_minus)
    moreover have "0 < round_double (- x)" using 4(1) by (intro round_double_positive) simp
    ultimately show ?thesis using 4(2) by simp
  next
    case 5
    have "round_double (- y) \<le> round_double (- x)"
      using 5 assms by (intro round_double_mono_pos) simp_all
    then show ?thesis by (simp add: round_double_minus)
  qed
qed

lemma round_double_exact:
  assumes "0 < x" and "x / 2 powi (floor_log2 x - 52) = of_int j"
  shows "round_double x = x"
proof -
  have "round_double x = of_int j * 2 powi (floor_log2 x - 52)"
    by (simp add: round_double_pos [OF assms(1)] assms(2))
  also have "\<dots> = x" using assms(2) by (simp add: field_simps)
  finally show ?thesis .
qed

lemma round_double_of_nat_pos:
  assumes "0 < k" "k < 2 ^ 53"
  shows "round_double (of_int k) = of_int k"
proof -
  let ?x = "of_int k :: rat" and ?l = "floor_log2 (of_int k)"
  have x: "0 < ?x" using assms(1) by simp
  have "?x < of_int (2 ^ 53)" using assms(2) by (simp only: of_int_less_iff)
  then have "?x < 2 powi 53" by simp
  with floor_log2_bounds(1) [OF x] have lt: "(2::rat) powi ?l < 2 powi 53" by (rule le_less_trans)
  have l: "?l \<le> 52"
  proof (rule ccontr)
    assume "\<not> ?l \<le> 52"
    then have "53 \<le> ?l" by simp
    then have "(2::rat) powi 53 \<le> 2 powi ?l" by (intro power_int_increasing) simp_all
    with lt show False by simp
  qed
  have "?x / 2 powi (?l - 52) = ?x * 2 powi (52 - ?l)"
    using power_int_minus [of "2::rat" "?l - 52"] by (simp add: divide_inverse)
  also have "\<dots> = ?x * 2 ^ nat (52 - ?l)" using l by (simp add: power_int_nonneg_exp)
  also have "\<dots> = of_int (k * 2 ^ nat (52 - ?l))" by simp
  finally show ?thesis by (rule round_double_exact [OF x])
qed

lemma round_double_of_int:
  assumes "\<bar>k\<bar> < 2 ^ 53"
  shows "round_double (of_int k) = of_int k"
proof -
  consider "0 < k" | "k = 0" | "k < 0" by linarith
  then show ?thesis
  proof cases
    case 1
    then show ?thesis using assms by (intro round_double_of_nat_pos) simp_all
  next
    case 2
    then show ?thesis by simp
  next
    case 3
    then have "round_double (of_int (- k)) = of_int (- k)"
      using assms by (intro round_double_of_nat_pos) simp_all
    then show ?thesis using round_double_minus [of "of_int k"] by simp
  qed
qed

lemma round_double_square_ge_1:
  assumes "1 \<le> \<bar>x\<bar>"
  shows "1 \<le> round_double (x * x)"
proof -
  have "1 * 1 \<le> \<bar>x\<bar> * \<bar>x\<bar>" using assms by (intro mult_mono) simp_all
  then have "1 \<le> x * x" by (simp add: abs_mult_self_eq)
  from round_double_mono [OF this] round_double_of_int [of 1] show ?thesis by simp
qed

lemma round_double_above_128:
  assumes "0 < n" "n < 2 ^ 45" "128 * n < s"
  shows "128 < round_double (of_int s / of_int n)"
proof -
  let ?y = "4503599627370497 / 35184372088832 :: rat"
  have y: "round_double ?y = ?y" by code_simp
  have "128 * n + 1 \<le> s" using assms(3) by simp
  then have "(of_int (128 * n + 1) :: rat) \<le> of_int s" by (simp only: of_int_le_iff)
  then have "(of_int (128 * n + 1) :: rat) / of_int n \<le> of_int s / of_int n"
    using assms(1) by (intro divide_right_mono) simp_all
  moreover have "(of_int (128 * n + 1) :: rat) / of_int n = 128 + 1 / of_int n"
    using assms(1) by (simp add: add_divide_distrib)
  ultimately have 1: "128 + 1 / of_int n \<le> (of_int s :: rat) / of_int n" by simp
  have "(of_int n :: rat) < of_int (2 ^ 45)" using assms(2) by (simp only: of_int_less_iff)
  then have "(1::rat) / 2 ^ 45 < 1 / of_int n"
    using assms(1) by (simp add: field_simps)
  then have "?y \<le> 128 + 1 / of_int n" by simp
  with 1 have "?y \<le> of_int s / of_int n" by linarith
  from round_double_mono [OF this] y show ?thesis by simp
qed

section \<open>The variance written out, and the optimality of the selector\<close>

lemma sound_ops_nonneg: "sound_ops ops \<Longrightarrow> nonneg_ops ops"
proof -
  assume ops: "sound_ops ops"
  have "0 \<le> rnd ops x" if "0 \<le> x" for x
    using rnd_ge_int [OF ops, of 0 x] that by simp
  then show ?thesis using sqr_nonneg [OF ops] by (simp add: nonneg_ops_def)
qed

lemma nonneg_ops_exact: "nonneg_ops exact"
  by (rule sound_ops_nonneg [OF sound_ops_exact])

lemma round_half_even_nonneg: "0 \<le> m \<Longrightarrow> 0 \<le> round_half_even m"
  by (simp add: round_half_even_def Let_def)

lemma round_double_nonneg: "0 \<le> x \<Longrightarrow> 0 \<le> round_double x"
proof -
  assume x: "0 \<le> x"
  have "0 \<le> \<bar>x\<bar> / 2 powi e" for e :: int by simp
  then have "0 \<le> (of_int (round_half_even (\<bar>x\<bar> / 2 powi e)) :: rat) * 2 powi e" for e :: int
    using round_half_even_nonneg [of "\<bar>x\<bar> / 2 powi e"] by simp
  then show ?thesis using x by (simp add: round_double_def Let_def)
qed

lemma nonneg_ops_double: "nonneg_ops double_ops"
  by (simp add: nonneg_ops_def double_ops_def round_double_nonneg)

lemma betweenVar_nonneg_ops:
  assumes ops: "nonneg_ops ops" and "0 \<le> wB" "0 \<le> wF"
  shows "0 \<le> betweenVar ops wB wF sumB sum_all"
proof -
  have r: "0 \<le> rnd ops x" if "0 \<le> x" for x using ops that by (simp add: nonneg_ops_def)
  have s: "0 \<le> sqr ops x" for x using ops by (simp add: nonneg_ops_def)
  have "(0::rat) \<le> of_int wB * of_int wF" using assms(2,3) by simp
  then have "0 \<le> rnd ops (of_int wB * of_int wF)" by (rule r)
  then have "0 \<le> rnd ops (of_int wB * of_int wF) * sqr ops x" for x
    using s [of x] by simp
  then have "0 \<le> rnd ops (rnd ops (of_int wB * of_int wF) * sqr ops x)" for x
    by (rule r)
  then show ?thesis
    by (simp add: betweenVar_def js_mul_def js_pow2_def Let_def)
qed

lemma between_class_variance_nonneg_ops:
  "nonneg_ops ops \<Longrightarrow> 0 \<le> between_class_variance ops d t"
  using class_wB_bounds [of d t]
  by (simp add: between_class_variance_def Let_def betweenVar_nonneg_ops)

lemma otsuLike_max_nonneg_ops:
  assumes "nonneg_ops ops" "t \<le> 255"
  shows "between_class_variance ops d t \<le> between_class_variance ops d (otsuLike ops d)"
proof (cases ops d rule: otsuLike_cases)
  case flat
  have "between_class_variance ops d t \<le> 0" using flat(2) assms(2) by simp
  then show ?thesis
    using between_class_variance_nonneg_ops [OF assms(1), of d "otsuLike ops d"] by simp
next
  case peak
  then show ?thesis using assms(2) by simp
qed

subsection \<open>The code's \<open>betweenVar\<close> is the variance of the specification\<close>

lemma computed_variance_code:
  "computed_variance ops d t = between_class_variance ops d t"
  by (simp add: computed_variance_def between_class_variance_def betweenVar_def class_wB_def
      class_sumB_def js_div_def js_sub_def js_mul_def js_pow2_def Let_def)

lemma foreground_length:
  "int (length (filter (\<lambda>v. t < unat v) (d :: byte list))) =
     int (length d) - int (length (filter (\<lambda>v. unat v \<le> t) d))"
  by (induction d) auto

lemma foreground_sum:
  "sum_list (map uint (filter (\<lambda>v. t < unat v) (d :: byte list))) =
     sum_list (map uint d) - sum_list (map uint (filter (\<lambda>v. unat v \<le> t) d))"
  by (induction d) auto

lemma computed_variance_exact: "computed_variance exact d t = exact_variance d t"
proof -
  let ?b = "filter (\<lambda>v. unat v \<le> t) d" and ?f = "filter (\<lambda>v. t < unat v) d"
  have wF: "int (length d) - int (length ?b) = int (length ?f)"
    by (simp add: foreground_length)
  have sF: "sum_list (map uint d) - sum_list (map uint ?b) = sum_list (map uint ?f)"
    by (simp add: foreground_sum)
  show ?thesis
    unfolding computed_variance_def exact_variance_def Let_def wF sF
    by (simp add: exact_def power2_eq_square)
qed

subsection \<open>The selector on the near-tie buffer\<close>

lemma otsu_scan_cong:
  assumes "\<forall>k<256. hist ! k = hist' ! k"
  shows "otsu_scan ops hist total_px sum_all t sumB wB varMax threshold =
         otsu_scan ops hist' total_px sum_all t sumB wB varMax threshold"
  using assms
proof (induction ops hist total_px sum_all t sumB wB varMax threshold rule: otsu_scan.induct)
  case (1 ops hist total_px sum_all t sumB wB varMax threshold)
  show ?case
  proof (cases "t < 256")
    case False
    then show ?thesis
      by (subst otsu_scan.simps, subst (2) otsu_scan.simps) simp
  next
    case True
    then have eq: "hist ! t = hist' ! t" using "1.prems" by simp
    show ?thesis
      using True "1.IH" "1.prems"
      by (subst otsu_scan.simps, subst (2) otsu_scan.simps) (simp add: eq Let_def)
  qed
qed

lemma otsuLike_via_hist:
  assumes "\<forall>k<256. hist ! k = int (length (filter (\<lambda>v. unat v = k) d))"
  shows "otsuLike ops d =
     otsu_scan ops hist (int (length d)) (sum_list (map uint d)) 0 0 0 0 0"
proof -
  have "\<forall>k<256. hist_of d ! k = hist ! k" using assms by (simp add: hist_of_nth)
  from otsu_scan_cong [OF this] show ?thesis
    by (simp add: otsuLike_def sum_of_hist_of Let_def)
qed

lemma near_tie_length: "length near_tie_buffer = 478331887"
  by (simp only: near_tie_buffer_def length_append length_replicate)

lemma near_tie_sum: "sum_list (map uint near_tie_buffer) = 121974103753"
  by (simp only: near_tie_buffer_def map_append map_replicate sum_list_append sum_list_replicate)
     simp

lemma near_tie_count:
  "length (filter (\<lambda>v. unat v = k) near_tie_buffer) =
     (if k = 252 then 87873 else 0) + (if k = 254 then 263813 else 0) +
     (if k = 255 then 477980201 else 0)"
proof -
  have u: "unat (252 :: byte) = 252" "unat (254 :: byte) = 254" "unat (255 :: byte) = 255"
    by simp_all
  show ?thesis
    by (simp only: near_tie_buffer_def filter_append filter_replicate length_append u)
       (simp only: length_replicate list.size if_distrib [of length] eq_commute [of _ k]
         add.assoc cong: if_cong)
qed

lemma near_tie_hist:
  assumes "k < 256"
  shows "(replicate 252 0 @ [87873, 0, 263813, 477980201]) ! k =
     int (length (filter (\<lambda>v. unat v = k) near_tie_buffer))"
proof -
  consider "k < 252" | "k = 252" | "k = 253" | "k = 254" | "k = 255"
    using assms by linarith
  then show ?thesis
    by cases (simp_all add: near_tie_count nth_append)
qed

lemma near_tie_scan:
  "otsu_scan double_ops (replicate 252 0 @ [87873, 0, 263813, 477980201])
     478331887 121974103753 0 0 0 0 0 = 254"
  by code_simp

lemma near_tie_otsuLike: "otsuLike double_ops near_tie_buffer = 254"
proof -
  have "\<forall>k<256. (replicate 252 0 @ [87873, 0, 263813, 477980201]) ! k =
      int (length (filter (\<lambda>v. unat v = k) near_tie_buffer))"
    using near_tie_hist by blast
  from otsuLike_via_hist [OF this, of double_ops] show ?thesis
    by (simp only: near_tie_length near_tie_sum near_tie_scan of_nat_numeral)
qed

lemma near_tie_background:
  "filter (\<lambda>v. unat v \<le> t) near_tie_buffer =
     (if 252 \<le> t then replicate 87873 252 else []) @
     (if 254 \<le> t then replicate 263813 254 else []) @
     (if 255 \<le> t then replicate 477980201 255 else [])"
proof -
  have u: "unat (252 :: byte) = 252" "unat (254 :: byte) = 254" "unat (255 :: byte) = 255"
    by simp_all
  show ?thesis
    by (simp only: near_tie_buffer_def filter_append filter_replicate u)
qed

lemma near_tie_foreground:
  "filter (\<lambda>v. t < unat v) near_tie_buffer =
     (if t < 252 then replicate 87873 252 else []) @
     (if t < 254 then replicate 263813 254 else []) @
     (if t < 255 then replicate 477980201 255 else [])"
proof -
  have u: "unat (252 :: byte) = 252" "unat (254 :: byte) = 254" "unat (255 :: byte) = 255"
    by simp_all
  show ?thesis
    by (simp only: near_tie_buffer_def filter_append filter_replicate u)
qed

lemma near_tie_variance_252:
  "exact_variance near_tie_buffer 252 =
     87873 * 478244014 * (252 - 121951959757 / 478244014)\<^sup>2"
  unfolding exact_variance_def Let_def near_tie_background near_tie_foreground
  by (simp add: sum_list_replicate)

lemma near_tie_variance_254:
  "exact_variance near_tie_buffer 254 =
     351686 * 477980201 * (89152498 / 351686 - 255)\<^sup>2"
  unfolding exact_variance_def Let_def near_tie_background near_tie_foreground
  by (simp add: sum_list_replicate)

lemma near_tie_variances:
  "exact_variance near_tie_buffer 254 < exact_variance near_tie_buffer 252"
  unfolding near_tie_variance_252 near_tie_variance_254
  by (simp add: power2_eq_square field_simps)


section \<open>Claims about the threshold selector\<close>

lemma otsuLike_max_computed:
  assumes "nonneg_ops ops" "t \<le> 255"
  shows "computed_variance ops d t \<le> computed_variance ops d (otsuLike ops d)"
  using otsuLike_max_nonneg_ops [OF assms, of d] by (simp add: computed_variance_code)

lemma otsuLike_max_exact:
  assumes "t \<le> 255"
  shows "exact_variance d t \<le> exact_variance d (otsuLike exact d)"
  using otsuLike_max_computed [OF nonneg_ops_exact assms, of d]
  by (simp add: computed_variance_exact)

lemma otsuLike_first_computed:
  assumes "computed_variance ops d (otsuLike ops d) \<le> computed_variance ops d t"
  shows "otsuLike ops d \<le> t"
  using assms otsuLike_first [of ops d t] by (simp add: computed_variance_code)

lemma otsuLike_first_exact:
  assumes "exact_variance d (otsuLike exact d) \<le> exact_variance d t"
  shows "otsuLike exact d \<le> t"
  using assms otsuLike_first_computed [of exact d t] by (simp add: computed_variance_exact)

text \<open>
  C1 (as amended). For every grayscale buffer the threshold returned by the selector
  maximizes, over all cut points \<open>t\<close> in \<open>[0, 255]\<close>, the between-class variance as it is
  computed in Numbers, every operation rounded: no \<open>t\<close> has a strictly greater computed
  variance, whatever the rounding (of doubles, or none). Computed without rounding, the
  returned threshold maximizes the exact variance \<open>wB * wF * (mB - mF)\<^sup>2\<close>. The same holds of
  \<open>otsuThreshold\<close> as long as its 32-bit counters cannot wrap.
\<close>

theorem otsu_maximizes_computed_variance:
  assumes "nonneg_ops ops" and "t \<le> 255"
  shows "otsuLike ops grayData \<le> 255 \<and>
     computed_variance ops grayData t
       \<le> computed_variance ops grayData (otsuLike ops grayData) \<and>
     exact_variance grayData t \<le> exact_variance grayData (otsuLike exact grayData) \<and>
     (length grayData < 2 ^ 32 \<longrightarrow>
        computed_variance ops grayData t
          \<le> computed_variance ops grayData (otsuThreshold ops grayData) \<and>
        exact_variance grayData t \<le> exact_variance grayData (otsuThreshold exact grayData))"
  using otsuLike_le_255 [of ops grayData] otsuLike_max_computed [OF assms, of grayData]
    otsuLike_max_exact [OF assms(2), of grayData]
  by (simp add: otsuThreshold_eq)

theorem otsu_maximizes_computed_variance_witness:
  "nonneg_ops double_ops \<and> (0::nat) \<le> 255 \<and> length [0, 1, 1, 2 :: byte] < 2 ^ 32 \<and>
   otsuLike double_ops [0, 1, 1, 2] = 1 \<and>
   computed_variance double_ops [0, 1, 1, 2] 0
     \<le> computed_variance double_ops [0, 1, 1, 2] (otsuLike double_ops [0, 1, 1, 2]) \<and>
   exact_variance [0, 1, 1, 2] 0 \<le> exact_variance [0, 1, 1, 2] (otsuLike exact [0, 1, 1, 2]) \<and>
   computed_variance double_ops [0, 1, 1, 2] 0
     \<le> computed_variance double_ops [0, 1, 1, 2] (otsuThreshold double_ops [0, 1, 1, 2])"
proof -
  have t: "(0::nat) \<le> 255" by simp
  have r: "otsuLike double_ops [0, 1, 1, 2] = 1" by code_simp
  show ?thesis
    using otsu_maximizes_computed_variance [OF nonneg_ops_double t, of "[0, 1, 1, 2]"]
      nonneg_ops_double r
    by simp
qed

text \<open>
  The claim as stated, about the variance \<open>wB * wF * (mB - mF)\<^sup>2\<close> itself, fails in doubles
  on the buffer with 87873 samples of 252, 263813 of 254 and 477980201 of 255: the selector
  returns 254, and the cut point 252 has a strictly greater variance (the two differ by less
  than the rounding of the computation).
\<close>

theorem double_rounding_misses_maximum_counterexample:
  "otsuLike double_ops near_tie_buffer = 254 \<and>
   exact_variance near_tie_buffer 254 < exact_variance near_tie_buffer 252"
  using near_tie_otsuLike near_tie_variances by simp

text \<open>
  C4 (as amended). When several cut points attain the maximal computed between-class
  variance (the Numbers that the scan compares), the selector returns the smallest of them:
  a cut point \<open>t\<close> whose computed variance is not below that of the returned threshold has
  exactly that variance and is not below the returned threshold. Computed without rounding,
  the selector returns the smallest cut point of maximal exact variance.
\<close>

theorem otsu_first_of_equal_computed_variance:
  assumes "nonneg_ops ops" and "t \<le> 255"
  shows "(computed_variance ops grayData (otsuLike ops grayData)
            \<le> computed_variance ops grayData t \<longrightarrow>
          otsuLike ops grayData \<le> t \<and>
          computed_variance ops grayData t =
            computed_variance ops grayData (otsuLike ops grayData)) \<and>
     (exact_variance grayData (otsuLike exact grayData) \<le> exact_variance grayData t \<longrightarrow>
          otsuLike exact grayData \<le> t \<and>
          exact_variance grayData t = exact_variance grayData (otsuLike exact grayData))"
  using otsuLike_first_computed [of ops grayData t] otsuLike_first_exact [of grayData t]
    otsuLike_max_computed [OF assms, of grayData] otsuLike_max_exact [OF assms(2), of grayData]
  by auto

theorem otsu_first_of_equal_computed_variance_witness:
  "nonneg_ops double_ops \<and> (1::nat) \<le> 255 \<and>
   computed_variance double_ops [0, 1, 2] 0 = 9 / 2 \<and>
   computed_variance double_ops [0, 1, 2] 1 = 9 / 2 \<and>
   otsuLike double_ops [0, 1, 2] = 0 \<and>
   exact_variance [0, 1, 1, 2] 0 = 16 / 3 \<and>
   exact_variance [0, 1, 1, 2] 1 = 16 / 3 \<and>
   otsuLike exact [0, 1, 1, 2] = 0 \<and>
   otsuLike double_ops [0, 1, 2] \<le> 1 \<and>
   otsuLike exact [0, 1, 1, 2] \<le> 1"
proof -
  have t: "(1::nat) \<le> 255" by simp
  have c: "computed_variance double_ops [0, 1, 2] 0 = 9 / 2"
    "computed_variance double_ops [0, 1, 2] 1 = 9 / 2"
    "otsuLike double_ops [0, 1, 2] = 0"
    by code_simp+
  have e: "exact_variance [0, 1, 1, 2] 0 = 16 / 3" "exact_variance [0, 1, 1, 2] 1 = 16 / 3"
    "otsuLike exact [0, 1, 1, 2] = 0"
    by code_simp+
  show ?thesis
    using otsu_first_of_equal_computed_variance [OF nonneg_ops_double t, of "[0, 1, 2]"]
      otsu_first_of_equal_computed_variance [OF nonneg_ops_double t, of "[0, 1, 1, 2]"]
      nonneg_ops_double c e
    by simp
qed

text \<open>
  The claim as stated, about ties of the variance itself, fails in doubles on the buffer
  \<open>[0, 1, 1, 2]\<close>: the cut points 0 and 1 both have the maximal variance \<open>16 / 3\<close>, the
  doubles computed for them are 5.333333333333333 and 5.333333333333334, and the selector
  returns 1, not 0.
\<close>

theorem exact_tie_broken_by_rounding_counterexample:
  "exact_variance [0, 1, 1, 2] 0 = 16 / 3 \<and>
   exact_variance [0, 1, 1, 2] 1 = 16 / 3 \<and>
   Max (exact_variance [0, 1, 1, 2] ` {0..255}) = 16 / 3 \<and>
   computed_variance double_ops [0, 1, 1, 2] 0 < computed_variance double_ops [0, 1, 1, 2] 1 \<and>
   otsuLike double_ops [0, 1, 1, 2] = 1"
  by code_simp

text \<open>
  C5. For every non-empty buffer whose samples all have the same intensity, the selector
  returns the threshold 0 (whatever the rounding).
\<close>

theorem otsu_uniform_is_zero:
  assumes "grayData \<noteq> []" and "\<forall>v\<in>set grayData. v = c"
  shows "otsuLike ops grayData = 0"
  using otsuLike_uniform [OF assms(2)] .

theorem otsu_uniform_is_zero_witness:
  "replicate 3 (7 :: byte) \<noteq> [] \<and> set (replicate 3 (7 :: byte)) = {7} \<and>
   otsuLike exact (replicate 3 7) = 0"
proof -
  have 1: "replicate 3 (7 :: byte) \<noteq> []" by simp
  have 2: "\<forall>v\<in>set (replicate 3 (7 :: byte)). v = 7" by simp
  show ?thesis
    using otsu_uniform_is_zero [OF 1 2, of exact] by simp
qed

text \<open>
  C10. For every buffer with at least two distinct intensities the selector returns a
  threshold \<open>t\<close> with \<open>min \<le> t < max\<close>, for the smallest and the largest intensity
  present; so both classes of the cut, the samples \<open>\<le> t\<close> and the samples \<open>> t\<close>, are
  inhabited. The same holds of \<open>otsuThreshold\<close> as long as its counters cannot wrap.
\<close>

theorem otsu_strictly_between_min_and_max:
  assumes "sound_ops ops" and "a \<in> set grayData" and "b \<in> set grayData" and "a \<noteq> b"
  shows "Min (unat ` set grayData) \<le> otsuLike ops grayData \<and>
     otsuLike ops grayData < Max (unat ` set grayData) \<and>
     (\<exists>v\<in>set grayData. unat v \<le> otsuLike ops grayData) \<and>
     (\<exists>v\<in>set grayData. otsuLike ops grayData < unat v) \<and>
     (length grayData < 2 ^ 32 \<longrightarrow>
        Min (unat ` set grayData) \<le> otsuThreshold ops grayData \<and>
        otsuThreshold ops grayData < Max (unat ` set grayData))"
  using otsuLike_min_max [OF assms] otsuLike_splits [OF assms]
  by (simp add: otsuThreshold_eq)

theorem otsu_strictly_between_min_and_max_witness:
  "sound_ops exact \<and> (10 :: byte) \<in> set [10, 200] \<and> (200 :: byte) \<in> set [10, 200] \<and>
   (10 :: byte) \<noteq> 200 \<and> length [10, 200 :: byte] < 2 ^ 32 \<and>
   Min (unat ` set [10, 200 :: byte]) \<le> otsuLike exact [10, 200] \<and>
   otsuLike exact [10, 200] < Max (unat ` set [10, 200 :: byte]) \<and>
   Min (unat ` set [10, 200 :: byte]) \<le> otsuThreshold exact [10, 200] \<and>
   otsuThreshold exact [10, 200] < Max (unat ` set [10, 200 :: byte])"
proof -
  have 1: "(10 :: byte) \<in> set [10, 200]" and 2: "(200 :: byte) \<in> set [10, 200]"
    and 3: "(10 :: byte) \<noteq> 200"
    by simp_all
  have 4: "length [10, 200 :: byte] < 2 ^ 32" by simp
  show ?thesis
    using otsu_strictly_between_min_and_max [OF sound_ops_exact 1 2 3] sound_ops_exact 1 2 3 4
    by blast
qed

section \<open>The region of interest\<close>

lemma roi_fold_count:
  "snd (fold (\<lambda>x (roiSum, roiCount). (f x roiSum, roiCount + (1::int))) xs acc) =
     snd acc + int (length xs)"
  by (induction xs arbitrary: acc) (auto simp: case_prod_beta)

lemma roi_row_count: "snd (roi_row r y acc) = snd acc + int (roiEndX r - roiStartX r)"
  by (simp add: roi_row_def roi_fold_count)

lemma roi_rows_count:
  "snd (fold (roi_row r) ys acc) = snd acc + int (length ys * (roiEndX r - roiStartX r))"
  by (induction ys arbitrary: acc) (simp_all add: roi_row_count)

lemma roi_scan_count:
  "snd (roi_scan r) = int ((roiEndY r - roiStartY r) * (roiEndX r - roiStartX r))"
  by (simp add: roi_scan_def roi_rows_count)

lemma roi_empty_iff: "snd (roi_scan r) = 0 \<longleftrightarrow> width r < 2 \<or> height r < 2"
proof -
  define nx where "nx = roiEndX r - roiStartX r"
  define ny where "ny = roiEndY r - roiStartY r"
  have x: "nx = 0 \<longleftrightarrow> width r < 2"
    unfolding nx_def roiEndX_def roiStartX_def by arith
  have y: "ny = 0 \<longleftrightarrow> height r < 2"
    unfolding ny_def roiEndY_def roiStartY_def by arith
  have "snd (roi_scan r) = int (ny * nx)"
    by (simp only: roi_scan_count nx_def ny_def)
  then show ?thesis using x y by auto
qed

lemma avgROIGray_empty: "snd (roi_scan r) = 0 \<Longrightarrow> avgROIGray ops r = Some 128"
  by (simp add: avgROIGray_def case_prod_beta)

text \<open>
  C6 (as amended). The ROI is empty exactly for the rasters whose width or height is below
  2 (not 4: \<open>floor (0.75 * 3) = 2 > 0 = floor (0.25 * 3)\<close>); for those the detector
  returns the neutral mean 128 and \<open>numbersAreLighter\<close> is false.
\<close>

theorem roi_degenerate_below_two:
  "(snd (roi_scan r) = 0 \<longleftrightarrow> width r < 2 \<or> height r < 2) \<and>
   (width r < 2 \<or> height r < 2 \<longrightarrow>
      avgROIGray ops r = Some 128 \<and> \<not> numbersAreLighter ops r)"
  using roi_empty_iff [of r] avgROIGray_empty [of r ops]
  by (auto simp: numbersAreLighter_def)

theorem roi_degenerate_below_two_witness:
  "height \<lparr>data = replicate 180 200, width = 180, height = 1\<rparr> < 2 \<and>
   avgROIGray exact \<lparr>data = replicate 180 200, width = 180, height = 1\<rparr> = Some 128 \<and>
   \<not> numbersAreLighter exact \<lparr>data = replicate 180 200, width = 180, height = 1\<rparr>"
  using roi_degenerate_below_two [of "\<lparr>data = replicate 180 200, width = 180, height = 1\<rparr>" exact]
  by simp

text \<open>
  The claim as stated fails for a raster of height 3: the ROI of a 180 by 3 raster has the
  rows 0 and 1 and the columns 45 to 134, and on a bright raster the detector decides
  \<open>numbersAreLighter\<close>.
\<close>

theorem roi_height_three_counterexample:
  "height \<lparr>data = replicate 540 200, width = 180, height = 3\<rparr> < 4 \<and>
   roi_scan \<lparr>data = replicate 540 200, width = 180, height = 3\<rparr> = (Some 36000, 180) \<and>
   avgROIGray exact \<lparr>data = replicate 540 200, width = 180, height = 3\<rparr> = Some 200 \<and>
   numbersAreLighter exact \<lparr>data = replicate 540 200, width = 180, height = 3\<rparr>"
  by code_simp

section \<open>Binary output\<close>

lemma sharp_threshold_binary: "set (sharp_threshold t buf) \<subseteq> {0, 255}"
  by (auto simp: sharp_threshold_def)

text \<open>
  C8. Every sample of the raster handed to the encoder is 0 or 255, with and without the
  inversion, and the raster has as many samples as the grayscale buffer.
\<close>

theorem binarizer_output_is_binary:
  "set (sharp_threshold t buf) \<subseteq> {0, 255} \<and>
   set (sharp_threshold t (sharp_negate buf)) \<subseteq> {0, 255} \<and>
   set (finalImage ops r) \<subseteq> {0, 255} \<and>
   set (finalImage_alt ops r) \<subseteq> {0, 255} \<and>
   length (finalImage ops r) = length (data r) \<and>
   length (finalImage_alt ops r) = length (data r)"
proof -
  have "length (finalImage ops r) = length (data r)"
    by (simp add: finalImage_def sharp_threshold_def sharp_negate_def)
  moreover have "length (finalImage_alt ops r) = length (data r)"
    by (simp add: finalImage_alt_def sharp_threshold_def sharp_negate_def Let_def)
  moreover have "set (finalImage ops r) \<subseteq> {0, 255}"
    unfolding finalImage_def using sharp_threshold_binary by (simp split: if_splits)
  moreover have "set (finalImage_alt ops r) \<subseteq> {0, 255}"
    unfolding finalImage_alt_def Let_def by (rule sharp_threshold_binary)
  ultimately show ?thesis using sharp_threshold_binary by blast
qed

section \<open>Digit filter\<close>

text \<open>
  C9. The digit filter is idempotent and its result has decimal digits only, in both
  variants of the regular expression.
\<close>

theorem digit_filter_idempotent:
  "cleanedText (cleanedText s) = cleanedText s \<and>
   (\<forall>c\<in>set (cleanedText s). is_digit c) \<and>
   cleanedText_alt (cleanedText_alt s) = cleanedText_alt s \<and>
   (\<forall>c\<in>set (cleanedText_alt s). is_digit c)"
  by (auto simp: cleanedText_def cleanedText_alt_def)

theorem digit_filter_idempotent_witness:
  "cleanedText (cleanedText [0x31, 0x20, 0x61, 0x32, 0xA]) = cleanedText [0x31, 0x20, 0x61, 0x32, 0xA] \<and>
   cleanedText [0x31, 0x20, 0x61, 0x32, 0xA] = [0x31, 0x32] \<and>
   is_digit 0x31 \<and> is_digit 0x32"
proof -
  have e: "cleanedText [0x31, 0x20, 0x61, 0x32, 0xA] = [0x31, 0x32]" by code_simp
  show ?thesis
    using digit_filter_idempotent [of "[0x31, 0x20, 0x61, 0x32, 0xA]"] e by simp
qed

section \<open>The readiness guard\<close>

lemma reachable_cases:
  "reachable s \<Longrightarrow> s = server_start \<or> s = init_done server_start"
  by (induction rule: reachable.induct) (auto simp: init_done_def server_start_def)

text \<open>
  C7 (as amended). In server.js a request that arrives while the worker is still
  initializing is parked at \<open>await tesseractReadyPromise\<close>; it is not answered with 503,
  neither then nor later: once the initialization is done the guard lets it pass. Only the
  variant without the \<open>await\<close> answers it with 503 at once. In both, a request is
  processed only when the worker is ready.
\<close>

theorem readiness_guard_awaits:
  assumes "reachable s"
  shows "solve_captcha s has_url \<noteq> Status 503 \<and>
     (tesseractReadyPromise s = Pending \<longrightarrow>
        solve_captcha s has_url = Suspended \<and>
        solve_captcha_noawait s has_url = Status 503 \<and>
        solve_captcha (init_done s) has_url = (if has_url then Processing else Status 400)) \<and>
     (solve_captcha s has_url = Processing \<longrightarrow> isTesseractWorkerReady s) \<and>
     (solve_captcha_noawait s has_url = Processing \<longrightarrow> isTesseractWorkerReady s)"
  using reachable_cases [OF assms]
  by (auto simp: solve_captcha_def solve_captcha_noawait_def init_done_def server_start_def)

theorem readiness_guard_awaits_witness:
  "reachable server_start \<and> tesseractReadyPromise server_start = Pending \<and>
   solve_captcha server_start True = Suspended \<and>
   solve_captcha_noawait server_start True = Status 503 \<and>
   solve_captcha (init_done server_start) True = Processing"
proof -
  have p: "tesseractReadyPromise server_start = Pending" by (simp add: server_start_def)
  show ?thesis
    using readiness_guard_awaits [OF reachable.reach_start, of True] reachable.reach_start p
    by simp
qed

text \<open>
  The claim as stated fails in server.js: at start-up, while the promise is pending, the
  request is suspended and gets no answer.
\<close>

theorem readiness_guard_counterexample:
  "\<not> isTesseractWorkerReady server_start \<and>
   solve_captcha server_start True = Suspended \<and>
   solve_captcha server_start True \<noteq> Status 503"
  by (simp add: solve_captcha_def server_start_def)

section \<open>Polarity and binarization\<close>

lemma byte_le_255: "(v :: byte) \<le> 255"
  using unat_byte_less [of v] by (simp add: word_le_nat_alt)

lemma unat_negate: "unat (255 - v :: byte) = 255 - unat v"
  using unat_sub [OF byte_le_255 [of v]] by simp

lemma uint_negate: "uint (255 - v :: byte) = 255 - uint v"
proof -
  have "unat v \<le> 255" using unat_byte_less [of v] by simp
  then have "int (unat (255 - v)) = 255 - int (unat v)"
    by (simp add: unat_negate of_nat_diff)
  then show ?thesis by (simp only: uint_nat)
qed

lemma sharp_threshold_nth:
  "i < length buf \<Longrightarrow>
     sharp_threshold t buf ! i = (if t < unat (buf ! i) then 255 else 0)"
  by (simp add: sharp_threshold_def)

lemma sharp_negate_nth: "i < length buf \<Longrightarrow> sharp_negate buf ! i = 255 - buf ! i"
  by (simp add: sharp_negate_def)

lemma data_inverted: "data (inverted r) = sharp_negate (data r)"
  by (simp add: inverted_def sharp_negate_def)

lemma sharp_threshold_eq_iff:
  "sharp_threshold t buf = sharp_threshold t' buf \<longleftrightarrow>
     (\<forall>v\<in>set buf. (t < unat v) = (t' < unat v))"
  by (auto simp: sharp_threshold_def)

subsection \<open>The ROI scan of the inverted raster\<close>

lemma buffer_get_inverted:
  "buffer_get (data (inverted r)) i = map_option (\<lambda>x. 255 - x) (buffer_get (data r) i)"
  by (simp add: buffer_get_def inverted_def uint_negate)

lemma roi_step_mirror:
  "roi_mirror (roi_add S (buffer_get (data r) i), n + 1) =
     (roi_add (fst (roi_mirror (S, n))) (buffer_get (data (inverted r)) i),
      snd (roi_mirror (S, n)) + 1)"
  by (cases S; cases "buffer_get (data r) i")
     (simp_all add: roi_mirror_def roi_add_def buffer_get_inverted algebra_simps)

lemma roi_row_fold_mirror:
  "fold (\<lambda>x (roiSum, roiCount).
           (roi_add roiSum (buffer_get (data (inverted r)) (y * w + x)), roiCount + 1))
      xs (roi_mirror acc) =
   roi_mirror (fold (\<lambda>x (roiSum, roiCount).
           (roi_add roiSum (buffer_get (data r) (y * w + x)), roiCount + 1)) xs acc)"
proof (induction xs arbitrary: acc)
  case Nil
  then show ?case by simp
next
  case (Cons x xs)
  obtain S n where acc: "acc = (S, n)" by (cases acc)
  have "(roi_add (fst (roi_mirror (S, n))) (buffer_get (data (inverted r)) (y * w + x)),
         snd (roi_mirror (S, n)) + 1) =
        roi_mirror (roi_add S (buffer_get (data r) (y * w + x)), n + 1)"
    by (rule roi_step_mirror [symmetric])
  then show ?case
    using Cons.IH [of "(roi_add S (buffer_get (data r) (y * w + x)), n + 1)"]
    by (simp add: acc case_prod_beta)
qed

lemma inverted_dims:
  "width (inverted r) = width r" "height (inverted r) = height r"
  "roiStartX (inverted r) = roiStartX r" "roiEndX (inverted r) = roiEndX r"
  "roiStartY (inverted r) = roiStartY r" "roiEndY (inverted r) = roiEndY r"
  by (simp_all add: inverted_def roiStartX_def roiEndX_def roiStartY_def roiEndY_def)

lemma roi_row_mirror:
  "roi_row (inverted r) y (roi_mirror acc) = roi_mirror (roi_row r y acc)"
  by (simp add: roi_row_def inverted_dims roi_row_fold_mirror)

lemma roi_rows_mirror:
  "fold (roi_row (inverted r)) ys (roi_mirror acc) = roi_mirror (fold (roi_row r) ys acc)"
  by (induction ys arbitrary: acc) (simp_all add: roi_row_mirror)

lemma roi_scan_inverted: "roi_scan (inverted r) = roi_mirror (roi_scan r)"
proof -
  have "roi_mirror (Some 0, 0) = (Some 0, 0)" by (simp add: roi_mirror_def)
  with roi_rows_mirror [of r "[roiStartY r..<roiEndY r]" "(Some 0, 0)"]
  show ?thesis by (simp add: roi_scan_def inverted_dims)
qed

lemma lighter_mean:
  assumes ops: "sound_ops ops" and l: "numbersAreLighter ops r"
  obtains s n where "roi_scan r = (Some s, n)" "0 < n" "128 * n < s"
proof -
  obtain S n where sc: "roi_scan r = (S, n)" by (cases "roi_scan r")
  have n: "0 < n"
    using l by (auto simp: numbersAreLighter_def avgROIGray_def sc split: if_splits)
  then obtain s where S: "S = Some s"
    using l by (cases S) (auto simp: numbersAreLighter_def avgROIGray_def sc)
  have gt: "128 < rnd ops (of_int s / of_int n)"
    using l n by (simp add: numbersAreLighter_def avgROIGray_def sc S js_div_def)
  have "128 * n < s"
  proof (rule ccontr)
    assume "\<not> 128 * n < s"
    then have "s \<le> 128 * n" by simp
    then have "(of_int s :: rat) \<le> of_int (128 * n)" by (simp only: of_int_le_iff)
    then have "(of_int s :: rat) / of_int n \<le> of_int 128"
      using n by (simp add: pos_divide_le_eq)
    from rnd_le_int [OF ops _ this] gt show False by simp
  qed
  with sc S n show thesis by (intro that) simp_all
qed

lemma never_both_lighter:
  assumes ops: "sound_ops ops" and l: "numbersAreLighter ops r"
  shows "\<not> numbersAreLighter ops (inverted r)"
proof -
  from lighter_mean [OF ops l] obtain s n
    where sc: "roi_scan r = (Some s, n)" and n: "0 < n" and s: "128 * n < s" by blast
  have sc': "roi_scan (inverted r) = (Some (255 * n - s), n)"
    by (simp add: roi_scan_inverted sc roi_mirror_def)
  have "255 * n - s \<le> 127 * n" using s by simp
  then have "(of_int (255 * n - s) :: rat) \<le> of_int (127 * n)" by (simp only: of_int_le_iff)
  then have "(of_int (255 * n - s) :: rat) / of_int n \<le> of_int 127"
    using n by (simp add: pos_divide_le_eq)
  from rnd_le_int [OF ops _ this]
  have "rnd ops (of_int (255 * n - s) / of_int n) \<le> 127" by simp
  then show ?thesis
    using n by (simp add: numbersAreLighter_def avgROIGray_def sc' js_div_def)
qed


lemma finalImage_nth:
  assumes "i < length (data r)"
  shows "finalImage ops r ! i =
     (if numbersAreLighter ops r
      then (if otsuLike ops (data r) < 255 - unat (data r ! i) then 255 else 0)
      else (if otsuLike ops (data r) < unat (data r ! i) then 255 else 0))"
  using assms
  by (simp add: finalImage_def sharp_threshold_nth sharp_negate_nth sharp_negate_def unat_negate)

lemma finalImage_alt_nth:
  assumes "i < length (data r)"
  shows "finalImage_alt ops r ! i =
     (if numbersAreLighter ops r
      then (if otsuThreshold ops (data r) < 255 - unat (data r ! i) then 255 else 0)
      else (if otsuThreshold ops (data r) < unat (data r ! i) then 255 else 0))"
  using assms
  by (simp add: finalImage_alt_def Let_def sharp_threshold_nth sharp_negate_nth sharp_negate_def
      unat_negate)

text \<open>
  C2 (as amended). With \<open>numbersAreLighter\<close> the buffer is inverted before the threshold
  is applied: a pixel of intensity \<open>v\<close> becomes 255 exactly when \<open>255 - v\<close> exceeds the
  threshold of the original buffer, so the order of brightness is reversed: whenever a
  pixel becomes 255, every pixel that was at most as bright becomes 255 too. Without
  \<open>numbersAreLighter\<close> a pixel becomes 255 exactly when \<open>v\<close> exceeds the threshold, and the
  order is kept. Both variants of the handler agree on this.
\<close>

theorem binarization_reverses_brightness_when_lighter:
  assumes "i < length (data r)" and "j < length (data r)"
    and "unat (data r ! i) \<le> unat (data r ! j)"
  shows "(numbersAreLighter ops r \<longrightarrow>
       finalImage ops r ! i =
         (if otsuLike ops (data r) < 255 - unat (data r ! i) then 255 else 0) \<and>
       (finalImage ops r ! j = 255 \<longrightarrow> finalImage ops r ! i = 255) \<and>
       (finalImage_alt ops r ! j = 255 \<longrightarrow> finalImage_alt ops r ! i = 255)) \<and>
     (\<not> numbersAreLighter ops r \<longrightarrow>
       finalImage ops r ! i =
         (if otsuLike ops (data r) < unat (data r ! i) then 255 else 0) \<and>
       (finalImage ops r ! i = 255 \<longrightarrow> finalImage ops r ! j = 255) \<and>
       (finalImage_alt ops r ! i = 255 \<longrightarrow> finalImage_alt ops r ! j = 255))"
  using assms(3)
  by (auto simp: finalImage_nth [OF assms(1)] finalImage_nth [OF assms(2)]
      finalImage_alt_nth [OF assms(1)] finalImage_alt_nth [OF assms(2)] split: if_splits)

theorem binarization_reverses_brightness_when_lighter_witness:
  "(0::nat) < length (data (block_raster 250 100)) \<and>
   (5::nat) < length (data (block_raster 250 100)) \<and>
   unat (data (block_raster 250 100) ! 0) \<le> unat (data (block_raster 250 100) ! 5) \<and>
   numbersAreLighter exact (block_raster 250 100) \<and>
   finalImage exact (block_raster 250 100) ! 5 = 0 \<and>
   finalImage exact (block_raster 250 100) ! 0 = 255 \<and>
   (finalImage exact (block_raster 250 100) ! 0 =
      (if otsuLike exact (data (block_raster 250 100))
            < 255 - unat (data (block_raster 250 100) ! 0) then 255 else 0))"
proof -
  have 1: "(0::nat) < length (data (block_raster 250 100))"
    and 2: "(5::nat) < length (data (block_raster 250 100))"
    and 3: "unat (data (block_raster 250 100) ! 0) \<le> unat (data (block_raster 250 100) ! 5)"
    by (simp_all add: block_raster_def)
  have l: "numbersAreLighter exact (block_raster 250 100)" by code_simp
  have o: "finalImage exact (block_raster 250 100) ! 5 = 0"
    "finalImage exact (block_raster 250 100) ! 0 = 255" by code_simp+
  show ?thesis
    using binarization_reverses_brightness_when_lighter [OF 1 2 3, of exact] 1 2 3 l o
    by blast
qed

text \<open>
  The claim as stated fails on the block raster with a bright block (250) on a darker
  ground (100): the detector decides \<open>numbersAreLighter\<close>, the threshold is 100, and the
  bright samples of the block become 0 while the ground becomes 255.
\<close>

theorem bright_pixels_become_black_counterexample:
  "numbersAreLighter exact (block_raster 250 100) \<and>
   otsuLike exact (data (block_raster 250 100)) = 100 \<and>
   data (block_raster 250 100) ! 5 = 250 \<and>
   finalImage exact (block_raster 250 100) ! 5 = 0 \<and>
   finalImage exact (block_raster 250 100) =
     [255, 255, 255, 255,  255, 0, 0, 255,  255, 0, 0, 255,  255, 255, 255, 255] \<and>
   finalImage_alt exact (block_raster 250 100) =
     [255, 255, 255, 255,  255, 0, 0, 255,  255, 0, 0, 255,  255, 255, 255, 255]"
  by code_simp

subsection \<open>The decision on a raster and on its inversion\<close>

lemma lighter_scan:
  assumes "roi_scan r = (Some s, n)" and "0 < n"
  shows "numbersAreLighter ops r \<longleftrightarrow> 128 < rnd ops (of_int s / of_int n)"
  using assms by (simp add: numbersAreLighter_def avgROIGray_def js_div_def)

lemma roi_scan_inverted_Some:
  assumes "roi_scan r = (Some s, n)"
  shows "roi_scan (inverted r) = (Some (255 * n - s), n)"
  by (simp add: roi_scan_inverted assms roi_mirror_def)

lemma lighter_degenerate:
  assumes "roi_scan r = (roiSum, roiCount)" and "roiCount = 0 \<or> roiSum = None"
  shows "\<not> numbersAreLighter ops r \<and> \<not> numbersAreLighter ops (inverted r)"
proof -
  have "roi_scan (inverted r) = (map_option (\<lambda>s. 255 * roiCount - s) roiSum, roiCount)"
    by (simp add: roi_scan_inverted assms(1) roi_mirror_def)
  then show ?thesis
    using assms by (auto simp: numbersAreLighter_def avgROIGray_def)
qed

lemma lighter_above:
  assumes ops: "sound_ops ops" and sc: "roi_scan r = (Some s, n)" and n: "0 < n"
    and s: "129 * n \<le> s"
  shows "numbersAreLighter ops r"
proof -
  have "(of_int (129 * n) :: rat) \<le> of_int s" using s by (simp only: of_int_le_iff)
  then have "(of_int 129 :: rat) \<le> of_int s / of_int n"
    using n by (simp add: pos_le_divide_eq)
  from rnd_ge_int [OF ops _ this] have "129 \<le> rnd ops (of_int s / of_int n)" by simp
  then show ?thesis by (simp add: lighter_scan [OF sc n])
qed

lemma lighter_exact:
  assumes sc: "roi_scan r = (Some s, n)" and n: "0 < n"
  shows "numbersAreLighter exact r \<longleftrightarrow> 128 * n < s"
proof -
  have "(128 < (of_int s :: rat) / of_int n) \<longleftrightarrow> (of_int (128 * n) :: rat) < of_int s"
    using n by (simp add: pos_less_divide_eq)
  also have "\<dots> \<longleftrightarrow> 128 * n < s" by (simp only: of_int_less_iff)
  finally show ?thesis by (simp add: lighter_scan [OF sc n] exact_def)
qed

lemma sound_ops_double: "sound_ops double_ops"
proof -
  have "round_double (of_int k) = of_int k" if "\<bar>k\<bar> \<le> 256" for k :: int
    using that by (intro round_double_of_int) simp
  then show ?thesis
    by (simp add: sound_ops_def double_ops_def round_double_mono round_double_nonneg
        round_double_square_ge_1)
qed

lemma lighter_double:
  assumes sc: "roi_scan r = (Some s, n)" and n: "0 < n" "n < 2 ^ 45"
  shows "numbersAreLighter double_ops r \<longleftrightarrow> 128 * n < s"
proof
  assume "numbersAreLighter double_ops r"
  from lighter_mean [OF sound_ops_double this] sc show "128 * n < s" by auto
next
  assume "128 * n < s"
  from round_double_above_128 [OF n this] show "numbersAreLighter double_ops r"
    by (simp add: lighter_scan [OF sc n(1)] double_ops_def)
qed

lemma negate_negate: "sharp_negate (sharp_negate buf) = buf"
  by (simp add: sharp_negate_def comp_def)

text \<open>
  C3 (as amended). For a raster \<open>I\<close> and its pixel-wise inversion \<open>I'\<close> the detector never
  decides \<open>numbersAreLighter\<close> on both. With an empty ROI it decides against it on both.
  With a non-empty ROI of sum \<open>s\<close> over \<open>n\<close> samples the decision on \<open>I'\<close> is the negation of
  the decision on \<open>I\<close> exactly when the mean is above 128 or below 127, in exact arithmetic
  and, for fewer than \<open>2 ^ 45\<close> samples, in doubles (under any sound rounding: at least when
  the mean is at least 129 or at most 126); for a mean from 127 to 128 both decisions are
  false. When the detector decides
  \<open>numbersAreLighter\<close> on one of the two rasters, both runs of the binarization threshold
  the same buffer, that of the other raster, one with the threshold selected from \<open>I\<close> and
  one with the threshold selected from \<open>I'\<close>; the two outputs are identical exactly when
  the two thresholds classify every sample of that buffer alike.
\<close>

theorem polarity_decision_under_inversion:
  assumes "sound_ops ops" and "roi_scan r = (roiSum, roiCount)"
  shows "\<not> (numbersAreLighter ops r \<and> numbersAreLighter ops (inverted r)) \<and>
     (roiCount = 0 \<or> roiSum = None \<longrightarrow>
        \<not> numbersAreLighter ops r \<and> \<not> numbersAreLighter ops (inverted r)) \<and>
     (0 < roiCount \<and> roiSum = Some s \<longrightarrow>
        (129 * roiCount \<le> s \<longrightarrow>
           numbersAreLighter ops r \<and> \<not> numbersAreLighter ops (inverted r)) \<and>
        (s \<le> 126 * roiCount \<longrightarrow>
           \<not> numbersAreLighter ops r \<and> numbersAreLighter ops (inverted r)) \<and>
        (numbersAreLighter exact r \<longleftrightarrow> 128 * roiCount < s) \<and>
        (numbersAreLighter exact (inverted r) \<longleftrightarrow> s < 127 * roiCount) \<and>
        (roiCount < 2 ^ 45 \<longrightarrow>
           (numbersAreLighter double_ops r \<longleftrightarrow> 128 * roiCount < s) \<and>
           (numbersAreLighter double_ops (inverted r) \<longleftrightarrow> s < 127 * roiCount))) \<and>
     (numbersAreLighter ops r \<longrightarrow>
        finalImage ops r = sharp_threshold (otsuLike ops (data r)) (data (inverted r)) \<and>
        finalImage ops (inverted r) =
          sharp_threshold (otsuLike ops (data (inverted r))) (data (inverted r)) \<and>
        (finalImage ops r = finalImage ops (inverted r) \<longleftrightarrow>
           (\<forall>v\<in>set (data (inverted r)).
              (otsuLike ops (data r) < unat v) = (otsuLike ops (data (inverted r)) < unat v)))) \<and>
     (numbersAreLighter ops (inverted r) \<longrightarrow>
        finalImage ops r = sharp_threshold (otsuLike ops (data r)) (data r) \<and>
        finalImage ops (inverted r) =
          sharp_threshold (otsuLike ops (data (inverted r))) (data r) \<and>
        (finalImage ops r = finalImage ops (inverted r) \<longleftrightarrow>
           (\<forall>v\<in>set (data r).
              (otsuLike ops (data r) < unat v) = (otsuLike ops (data (inverted r)) < unat v))))"
proof -
  note ops = assms(1)
  have both: "\<not> (numbersAreLighter ops r \<and> numbersAreLighter ops (inverted r))"
    using never_both_lighter [OF ops] by blast
  have deg: "roiCount = 0 \<or> roiSum = None \<longrightarrow>
      \<not> numbersAreLighter ops r \<and> \<not> numbersAreLighter ops (inverted r)"
    using lighter_degenerate [OF assms(2)] by blast
  have flip: "(129 * roiCount \<le> s \<longrightarrow>
           numbersAreLighter ops r \<and> \<not> numbersAreLighter ops (inverted r)) \<and>
        (s \<le> 126 * roiCount \<longrightarrow>
           \<not> numbersAreLighter ops r \<and> numbersAreLighter ops (inverted r)) \<and>
        (numbersAreLighter exact r \<longleftrightarrow> 128 * roiCount < s) \<and>
        (numbersAreLighter exact (inverted r) \<longleftrightarrow> s < 127 * roiCount) \<and>
        (roiCount < 2 ^ 45 \<longrightarrow>
           (numbersAreLighter double_ops r \<longleftrightarrow> 128 * roiCount < s) \<and>
           (numbersAreLighter double_ops (inverted r) \<longleftrightarrow> s < 127 * roiCount))"
    if n: "0 < roiCount" and S: "roiSum = Some s"
  proof -
    have sc: "roi_scan r = (Some s, roiCount)" using assms(2) S by simp
    have sc': "roi_scan (inverted r) = (Some (255 * roiCount - s), roiCount)"
      by (rule roi_scan_inverted_Some [OF sc])
    have 1: "numbersAreLighter ops r" if "129 * roiCount \<le> s"
      by (rule lighter_above [OF ops sc n that])
    have 2: "numbersAreLighter ops (inverted r)" if "s \<le> 126 * roiCount"
      using that by (intro lighter_above [OF ops sc' n]) simp
    have 3: "numbersAreLighter exact r \<longleftrightarrow> 128 * roiCount < s"
      by (rule lighter_exact [OF sc n])
    have 4: "numbersAreLighter exact (inverted r) \<longleftrightarrow> s < 127 * roiCount"
      using lighter_exact [OF sc' n] by auto
    have 5: "numbersAreLighter double_ops r \<longleftrightarrow> 128 * roiCount < s"
      if "roiCount < 2 ^ 45"
      by (rule lighter_double [OF sc n that])
    have 6: "numbersAreLighter double_ops (inverted r) \<longleftrightarrow> s < 127 * roiCount"
      if "roiCount < 2 ^ 45"
      using lighter_double [OF sc' n that] by auto
    show ?thesis using 1 2 3 4 5 6 both by blast
  qed
  have out1: "finalImage ops r = sharp_threshold (otsuLike ops (data r)) (data (inverted r)) \<and>
        finalImage ops (inverted r) =
          sharp_threshold (otsuLike ops (data (inverted r))) (data (inverted r))"
    if l: "numbersAreLighter ops r"
  proof -
    have "\<not> numbersAreLighter ops (inverted r)" using both l by blast
    then show ?thesis using l by (simp add: finalImage_def data_inverted)
  qed
  have out2: "finalImage ops r = sharp_threshold (otsuLike ops (data r)) (data r) \<and>
        finalImage ops (inverted r) =
          sharp_threshold (otsuLike ops (data (inverted r))) (data r)"
    if l: "numbersAreLighter ops (inverted r)"
  proof -
    have "\<not> numbersAreLighter ops r" using both l by blast
    then show ?thesis using l by (simp add: finalImage_def data_inverted negate_negate)
  qed
  have flip': "0 < roiCount \<and> roiSum = Some s \<longrightarrow>
        (129 * roiCount \<le> s \<longrightarrow>
           numbersAreLighter ops r \<and> \<not> numbersAreLighter ops (inverted r)) \<and>
        (s \<le> 126 * roiCount \<longrightarrow>
           \<not> numbersAreLighter ops r \<and> numbersAreLighter ops (inverted r)) \<and>
        (numbersAreLighter exact r \<longleftrightarrow> 128 * roiCount < s) \<and>
        (numbersAreLighter exact (inverted r) \<longleftrightarrow> s < 127 * roiCount) \<and>
        (roiCount < 2 ^ 45 \<longrightarrow>
           (numbersAreLighter double_ops r \<longleftrightarrow> 128 * roiCount < s) \<and>
           (numbersAreLighter double_ops (inverted r) \<longleftrightarrow> s < 127 * roiCount))"
    using flip by blast
  have o1: "numbersAreLighter ops r \<longrightarrow>
        finalImage ops r = sharp_threshold (otsuLike ops (data r)) (data (inverted r)) \<and>
        finalImage ops (inverted r) =
          sharp_threshold (otsuLike ops (data (inverted r))) (data (inverted r)) \<and>
        (finalImage ops r = finalImage ops (inverted r) \<longleftrightarrow>
           (\<forall>v\<in>set (data (inverted r)).
              (otsuLike ops (data r) < unat v) = (otsuLike ops (data (inverted r)) < unat v)))"
  proof
    assume l: "numbersAreLighter ops r"
    from out1 [OF l]
    have a: "finalImage ops r = sharp_threshold (otsuLike ops (data r)) (data (inverted r))"
      and b: "finalImage ops (inverted r) =
          sharp_threshold (otsuLike ops (data (inverted r))) (data (inverted r))"
      by blast+
    have c: "finalImage ops r = finalImage ops (inverted r) \<longleftrightarrow>
           (\<forall>v\<in>set (data (inverted r)).
              (otsuLike ops (data r) < unat v) = (otsuLike ops (data (inverted r)) < unat v))"
      unfolding a b by (rule sharp_threshold_eq_iff)
    from a b c
    show "finalImage ops r = sharp_threshold (otsuLike ops (data r)) (data (inverted r)) \<and>
        finalImage ops (inverted r) =
          sharp_threshold (otsuLike ops (data (inverted r))) (data (inverted r)) \<and>
        (finalImage ops r = finalImage ops (inverted r) \<longleftrightarrow>
           (\<forall>v\<in>set (data (inverted r)).
              (otsuLike ops (data r) < unat v) = (otsuLike ops (data (inverted r)) < unat v)))"
      by (intro conjI)
  qed
  have o2: "numbersAreLighter ops (inverted r) \<longrightarrow>
        finalImage ops r = sharp_threshold (otsuLike ops (data r)) (data r) \<and>
        finalImage ops (inverted r) =
          sharp_threshold (otsuLike ops (data (inverted r))) (data r) \<and>
        (finalImage ops r = finalImage ops (inverted r) \<longleftrightarrow>
           (\<forall>v\<in>set (data r).
              (otsuLike ops (data r) < unat v) = (otsuLike ops (data (inverted r)) < unat v)))"
  proof
    assume l: "numbersAreLighter ops (inverted r)"
    from out2 [OF l]
    have a: "finalImage ops r = sharp_threshold (otsuLike ops (data r)) (data r)"
      and b: "finalImage ops (inverted r) =
          sharp_threshold (otsuLike ops (data (inverted r))) (data r)"
      by blast+
    have c: "finalImage ops r = finalImage ops (inverted r) \<longleftrightarrow>
           (\<forall>v\<in>set (data r).
              (otsuLike ops (data r) < unat v) = (otsuLike ops (data (inverted r)) < unat v))"
      unfolding a b by (rule sharp_threshold_eq_iff)
    from a b c
    show "finalImage ops r = sharp_threshold (otsuLike ops (data r)) (data r) \<and>
        finalImage ops (inverted r) =
          sharp_threshold (otsuLike ops (data (inverted r))) (data r) \<and>
        (finalImage ops r = finalImage ops (inverted r) \<longleftrightarrow>
           (\<forall>v\<in>set (data r).
              (otsuLike ops (data r) < unat v) = (otsuLike ops (data (inverted r)) < unat v)))"
      by (intro conjI)
  qed
  from both deg flip' o1 o2 show ?thesis by (intro conjI)
qed

theorem polarity_decision_under_inversion_witness:
  "sound_ops double_ops \<and> roi_scan (block_raster 250 150) = (Some 1000, 4) \<and>
   numbersAreLighter double_ops (block_raster 250 150) \<and>
   \<not> numbersAreLighter double_ops (inverted (block_raster 250 150)) \<and>
   roi_scan (block_raster 5 105) = (Some 20, 4) \<and>
   \<not> numbersAreLighter double_ops (block_raster 5 105) \<and>
   numbersAreLighter double_ops (inverted (block_raster 5 105)) \<and>
   finalImage double_ops (block_raster 250 150) =
     sharp_threshold (otsuLike double_ops (data (block_raster 250 150)))
       (data (inverted (block_raster 250 150)))"
proof -
  have a: "roi_scan (block_raster 250 150) = (Some 1000, 4)" by code_simp
  have b: "roi_scan (block_raster 5 105) = (Some 20, 4)" by code_simp
  show ?thesis
    using polarity_decision_under_inversion [OF sound_ops_double a, of 1000]
      polarity_decision_under_inversion [OF sound_ops_double b, of 20]
      sound_ops_double a b
    by simp
qed

text \<open>
  The claim as stated fails twice. On the uniform raster of intensity 128 the detector
  decides against \<open>numbersAreLighter\<close> for the raster and for its inversion (means 128 and
  127). On the block raster with a block of 250 on a ground of 150 the decision flips, but
  the run on the raster thresholds the inverted buffer (5 and 105) at 150 and makes every
  sample 0, while the run on the inversion thresholds it at 5.
\<close>

theorem polarity_symmetry_counterexample:
  "\<not> numbersAreLighter exact (block_raster 128 128) \<and>
   \<not> numbersAreLighter exact (inverted (block_raster 128 128)) \<and>
   numbersAreLighter exact (block_raster 250 150) \<and>
   \<not> numbersAreLighter exact (inverted (block_raster 250 150)) \<and>
   otsuLike exact (data (block_raster 250 150)) = 150 \<and>
   otsuLike exact (data (inverted (block_raster 250 150))) = 5 \<and>
   finalImage exact (block_raster 250 150) = replicate 16 0 \<and>
   finalImage exact (inverted (block_raster 250 150)) =
     [255, 255, 255, 255,  255, 0, 0, 255,  255, 0, 0, 255,  255, 255, 255, 255] \<and>
   finalImage exact (block_raster 250 150) \<noteq> finalImage exact (inverted (block_raster 250 150))"
  by code_simp

end
